theory Spec2Isabelle
  imports Main
begin

section \<open>HashMap: open addressing with tombstones and an insertion-ordered record list\<close>

text \<open>
  The class \<^verbatim>\<open>HashMap<KeyType, ValueType, Hash>\<close> of \<^verbatim>\<open>hash_map.cpp\<close>. Its members are

  \<^item> \<^verbatim>\<open>hash\<close>, the hash functor, here a function from keys to \<open>nat\<close> (a \<^verbatim>\<open>size_t\<close>);
  \<^item> \<^verbatim>\<open>values\<close>, a \<^verbatim>\<open>std::list\<close> of pairs. A list node keeps its address for as long as
    it lives, and the slot table refers to nodes by iterator, so every node carries a
    handle (a \<open>nat\<close>) and \<open>next_node\<close> is the handle the next allocation returns;
  \<^item> \<^verbatim>\<open>pointers\<close>, a vector of list iterators, one per slot;
  \<^item> \<^verbatim>\<open>states\<close>, a vector of slot tags;
  \<^item> \<^verbatim>\<open>occupancy\<close>.

  Sizes are \<open>nat\<close>: a table of \<open>2 ^ 62\<close> slots or more cannot be allocated, so
  \<^verbatim>\<open>occupancy * 4\<close> and \<^verbatim>\<open>pointers.size() * 2\<close> never wrap.
\<close>

datatype slot_state = STATE_EMPTY | STATE_FILLED | STATE_ERASED

datatype list_iterator = Singular | End | At nat

text \<open>
  How a call ends when it does not return normally: \<open>KeyNotFound\<close> is the
  \<^verbatim>\<open>std::out_of_range\<close> of \<^verbatim>\<open>at\<close>; \<open>InvalidIterator\<close> and \<open>NullPointer\<close> stand for the two
  undefined behaviours the code could run into, dereferencing an iterator or pointer that
  designates no live node, and dereferencing \<^verbatim>\<open>nullptr\<close>.
\<close>

datatype error = KeyNotFound | InvalidIterator | NullPointer

record ('k, 'v) HashMap =
  hash :: "'k \<Rightarrow> nat"
  pointers :: "list_iterator list"
  values_list :: "(nat \<times> 'k \<times> 'v) list"
  states :: "slot_state list"
  occupancy :: nat
  next_node :: nat

definition OCCUPANCY_COEFFICIENT :: nat where
  "OCCUPANCY_COEFFICIENT = 4"

definition INITIAL_SIZE :: nat where
  "INITIAL_SIZE = 8"

text \<open>The constructor \<^verbatim>\<open>HashMap(Hash hash = Hash())\<close>.\<close>

definition HashMap_new :: "('k \<Rightarrow> nat) \<Rightarrow> ('k, 'v) HashMap" where
  "HashMap_new h =
     \<lparr>hash = h, pointers = replicate INITIAL_SIZE Singular, values_list = [],
      states = replicate INITIAL_SIZE STATE_EMPTY, occupancy = 0, next_node = 0\<rparr>"

text \<open>
  \<^verbatim>\<open>++position; if (position >= pointers.size()) position = 0;\<close>, the step of every
  probe loop.
\<close>

definition next_position :: "nat \<Rightarrow> nat \<Rightarrow> nat" where
  "next_position n position = (if position + 1 \<ge> n then 0 else position + 1)"

text \<open>
  Dereferencing an iterator, \<^verbatim>\<open>*it\<close>: the pair of the node it designates. An iterator
  that designates no node of the list has no pair (the C++ is undefined there; the
  operations below answer \<open>InvalidIterator\<close>).
\<close>

definition deref :: "(nat \<times> 'k \<times> 'v) list \<Rightarrow> list_iterator \<Rightarrow> ('k \<times> 'v) option" where
  "deref vs it = (case it of At n \<Rightarrow> map_of vs n | _ \<Rightarrow> None)"

text \<open>\<^verbatim>\<open>values.erase(it)\<close>: unlinks the node with that handle.\<close>

fun list_erase :: "nat \<Rightarrow> (nat \<times> 'a) list \<Rightarrow> (nat \<times> 'a) list" where
  "list_erase n [] = []"
| "list_erase n (r # rs) = (if fst r = n then rs else r # list_erase n rs)"

text \<open>\<^verbatim>\<open>begin()\<close> to \<^verbatim>\<open>end()\<close>: the pairs of the record list, front to back.\<close>

definition HashMap_iterate :: "('k, 'v) HashMap \<Rightarrow> ('k \<times> 'v) list" where
  "HashMap_iterate s = map snd (values_list s)"

definition HashMap_size :: "('k, 'v) HashMap \<Rightarrow> nat" where
  "HashMap_size s = length (values_list s)"

definition HashMap_empty :: "('k, 'v) HashMap \<Rightarrow> bool" where
  "HashMap_empty s = (values_list s = [])"

definition hash_function :: "('k, 'v) HashMap \<Rightarrow> 'k \<Rightarrow> nat" where
  "hash_function s = hash s"

subsection \<open>The probe loops\<close>

text \<open>
  A probe loop has no bound of its own: it runs until it meets a slot that stops it.
  Each loop is therefore a partial function, and \<open>None\<close> is the run that never leaves
  the loop. A loop that leaves answers \<open>Some\<close>.

  The loop of \<^verbatim>\<open>check_size\<close> looks at the tags only.
\<close>

partial_function (option) rehash_probe :: "slot_state list \<Rightarrow> nat \<Rightarrow> nat \<Rightarrow> nat option" where
  "rehash_probe sts n position =
     (if sts ! position = STATE_FILLED then rehash_probe sts n (next_position n position)
      else Some position)"

declare rehash_probe.simps [code]

text \<open>
  The body of the \<^verbatim>\<open>for\<close> loop of \<^verbatim>\<open>check_size\<close>, over the records front to back. The
  loop works on the local \<^verbatim>\<open>new_pointers\<close>, on \<^verbatim>\<open>states\<close> and on \<^verbatim>\<open>occupancy\<close>.
\<close>

fun rehash_loop ::
  "('k \<Rightarrow> nat) \<Rightarrow> (nat \<times> 'k \<times> 'v) list \<Rightarrow> list_iterator list \<times> slot_state list \<times> nat \<Rightarrow>
   (list_iterator list \<times> slot_state list \<times> nat) option" where
  "rehash_loop h [] acc = Some acc"
| "rehash_loop h (r # rs) (new_pointers, sts, occ) =
     (case rehash_probe sts (length new_pointers) (h (fst (snd r)) mod length new_pointers) of
        None \<Rightarrow> None
      | Some position \<Rightarrow>
          rehash_loop h rs
            (new_pointers[position := At (fst r)], sts[position := STATE_FILLED], 0))"

text \<open>
  \<^verbatim>\<open>check_size\<close>. The flag \<open>alloc_ok\<close> says whether the allocation of the larger vectors
  succeeds; when it does not, \<^verbatim>\<open>std::bad_alloc\<close> is caught and the table is left as it
  was.
\<close>

definition check_size :: "bool \<Rightarrow> ('k, 'v) HashMap \<Rightarrow> ('k, 'v) HashMap option" where
  "check_size alloc_ok s =
     (if occupancy s * OCCUPANCY_COEFFICIENT \<ge> length (pointers s) then
        if alloc_ok then
          (case rehash_loop (hash s) (values_list s)
                  (replicate (length (pointers s) * 2) Singular,
                   replicate (length (pointers s) * 2) STATE_EMPTY, occupancy s) of
             None \<Rightarrow> None
           | Some (new_pointers, sts, occ) \<Rightarrow>
               Some (s\<lparr>pointers := new_pointers, states := sts, occupancy := occ\<rparr>))
        else Some s
      else Some s)"

text \<open>
  The loop of \<^verbatim>\<open>insert\<close>: it passes over \<^verbatim>\<open>STATE_FILLED\<close> slots only, and returns from
  \<^verbatim>\<open>insert\<close> altogether (\<open>Inr None\<close>) at a filled slot that holds the key.
\<close>

partial_function (option) insert_probe ::
  "('k, 'v) HashMap \<Rightarrow> 'k \<Rightarrow> nat \<Rightarrow> (error + nat option) option" where
  "insert_probe s key position =
     (if states s ! position = STATE_FILLED then
        (case deref (values_list s) (pointers s ! position) of
           None \<Rightarrow> Some (Inl InvalidIterator)
         | Some kv \<Rightarrow>
             if fst kv = key then Some (Inr None)
             else insert_probe s key (next_position (length (pointers s)) position))
      else Some (Inr (Some position)))"

declare insert_probe.simps [code]

text \<open>
  The loop that \<^verbatim>\<open>operator[]\<close>, \<^verbatim>\<open>at\<close>, \<^verbatim>\<open>erase\<close> and both \<^verbatim>\<open>find\<close> share word for word:
  it passes over \<^verbatim>\<open>STATE_ERASED\<close> slots and over filled slots that hold another key.
\<close>

partial_function (option) lookup_probe ::
  "('k, 'v) HashMap \<Rightarrow> 'k \<Rightarrow> nat \<Rightarrow> (error + nat) option" where
  "lookup_probe s key position =
     (if states s ! position = STATE_ERASED then
        lookup_probe s key (next_position (length (pointers s)) position)
      else if states s ! position = STATE_FILLED then
        (case deref (values_list s) (pointers s ! position) of
           None \<Rightarrow> Some (Inl InvalidIterator)
         | Some kv \<Rightarrow>
             if \<not> (fst kv = key) then
               lookup_probe s key (next_position (length (pointers s)) position)
             else Some (Inr position))
      else Some (Inr position))"

declare lookup_probe.simps [code]

text \<open>The inner loop of \<^verbatim>\<open>clear\<close>.\<close>

partial_function (option) clear_walk ::
  "nat \<Rightarrow> slot_state list \<Rightarrow> nat \<Rightarrow> slot_state list option" where
  "clear_walk n sts position =
     (if sts ! position \<noteq> STATE_EMPTY then
        clear_walk n (sts[position := STATE_EMPTY]) (next_position n position)
      else Some sts)"

declare clear_walk.simps [code]

subsection \<open>The operations\<close>

text \<open>
  The four statements that \<^verbatim>\<open>insert\<close> and \<^verbatim>\<open>operator[]\<close> both run once the slot is
  chosen: append the pair to \<^verbatim>\<open>values\<close>, point the slot at the new node, count the slot
  if it was empty, tag it filled.
\<close>

definition append_record ::
  "('k, 'v) HashMap \<Rightarrow> nat \<Rightarrow> 'k \<times> 'v \<Rightarrow> ('k, 'v) HashMap" where
  "append_record s position pair =
     s\<lparr>values_list := values_list s @ [(next_node s, pair)],
       pointers := (pointers s)[position := At (next_node s)],
       occupancy := (if states s ! position = STATE_EMPTY then occupancy s + 1 else occupancy s),
       states := (states s)[position := STATE_FILLED],
       next_node := next_node s + 1\<rparr>"

definition HashMap_insert ::
  "bool \<Rightarrow> 'k \<times> 'v \<Rightarrow> ('k, 'v) HashMap \<Rightarrow> (error + ('k, 'v) HashMap) option" where
  "HashMap_insert alloc_ok pair s0 =
     (case check_size alloc_ok s0 of
        None \<Rightarrow> None
      | Some s \<Rightarrow>
          (case insert_probe s (fst pair) (hash s (fst pair) mod length (pointers s)) of
             None \<Rightarrow> None
           | Some (Inl e) \<Rightarrow> Some (Inl e)
           | Some (Inr None) \<Rightarrow> Some (Inr s)
           | Some (Inr (Some position)) \<Rightarrow> Some (Inr (append_record s position pair))))"

text \<open>
  \<^verbatim>\<open>operator[]\<close> returns a reference to the mapped value; the model returns the table
  and the value read through that reference. \<open>dflt\<close> is \<^verbatim>\<open>ValueType()\<close>.
\<close>

definition HashMap_subscript ::
  "bool \<Rightarrow> 'v \<Rightarrow> 'k \<Rightarrow> ('k, 'v) HashMap \<Rightarrow> (error + ('k, 'v) HashMap \<times> 'v) option" where
  "HashMap_subscript alloc_ok dflt key s0 =
     (case check_size alloc_ok s0 of
        None \<Rightarrow> None
      | Some s \<Rightarrow>
          (case lookup_probe s key (hash s key mod length (pointers s)) of
             None \<Rightarrow> None
           | Some (Inl e) \<Rightarrow> Some (Inl e)
           | Some (Inr position) \<Rightarrow>
               if states s ! position \<noteq> STATE_FILLED then
                 Some (Inr (append_record s position (key, dflt), dflt))
               else
                 (case deref (values_list s) (pointers s ! position) of
                    None \<Rightarrow> Some (Inl InvalidIterator)
                  | Some kv \<Rightarrow> Some (Inr (s, snd kv)))))"

definition HashMap_at :: "'k \<Rightarrow> ('k, 'v) HashMap \<Rightarrow> (error + 'v) option" where
  "HashMap_at key s =
     (case lookup_probe s key (hash s key mod length (pointers s)) of
        None \<Rightarrow> None
      | Some (Inl e) \<Rightarrow> Some (Inl e)
      | Some (Inr position) \<Rightarrow>
          if states s ! position \<noteq> STATE_FILLED then Some (Inl KeyNotFound)
          else
            (case deref (values_list s) (pointers s ! position) of
               None \<Rightarrow> Some (Inl InvalidIterator)
             | Some kv \<Rightarrow> Some (Inr (snd kv))))"

definition HashMap_erase ::
  "'k \<Rightarrow> ('k, 'v) HashMap \<Rightarrow> (error + ('k, 'v) HashMap) option" where
  "HashMap_erase key s =
     (case lookup_probe s key (hash s key mod length (pointers s)) of
        None \<Rightarrow> None
      | Some (Inl e) \<Rightarrow> Some (Inl e)
      | Some (Inr position) \<Rightarrow>
          if states s ! position = STATE_FILLED then
            (case pointers s ! position of
               At n \<Rightarrow>
                 Some (Inr (s\<lparr>values_list := list_erase n (values_list s),
                              states := (states s)[position := STATE_ERASED]\<rparr>))
             | _ \<Rightarrow> Some (Inl InvalidIterator))
          else Some (Inr s))"

definition HashMap_find :: "'k \<Rightarrow> ('k, 'v) HashMap \<Rightarrow> (error + list_iterator) option" where
  "HashMap_find key s =
     (case lookup_probe s key (hash s key mod length (pointers s)) of
        None \<Rightarrow> None
      | Some (Inl e) \<Rightarrow> Some (Inl e)
      | Some (Inr position) \<Rightarrow>
          if states s ! position \<noteq> STATE_FILLED then Some (Inr End)
          else Some (Inr (pointers s ! position)))"

text \<open>The \<^verbatim>\<open>for\<close> loop of \<^verbatim>\<open>clear\<close>, over the records front to back.\<close>

fun clear_loop ::
  "('k \<Rightarrow> nat) \<Rightarrow> nat \<Rightarrow> (nat \<times> 'k \<times> 'v) list \<Rightarrow> slot_state list \<Rightarrow> slot_state list option" where
  "clear_loop h n [] sts = Some sts"
| "clear_loop h n (r # rs) sts =
     (case clear_walk n sts (h (fst (snd r)) mod n) of
        None \<Rightarrow> None
      | Some sts' \<Rightarrow> clear_loop h n rs sts')"

definition HashMap_clear :: "('k, 'v) HashMap \<Rightarrow> ('k, 'v) HashMap option" where
  "HashMap_clear s =
     (case clear_loop (hash s) (length (pointers s)) (values_list s) (states s) of
        None \<Rightarrow> None
      | Some sts \<Rightarrow> Some (s\<lparr>states := sts, values_list := [], occupancy := 0\<rparr>))"

text \<open>
  \<^verbatim>\<open>for (auto& pair : other.values) insert(pair);\<close>, the loop of the copy constructor and
  of the range and initializer-list constructors.
\<close>

fun insert_all ::
  "bool \<Rightarrow> ('k \<times> 'v) list \<Rightarrow> ('k, 'v) HashMap \<Rightarrow> (error + ('k, 'v) HashMap) option" where
  "insert_all alloc_ok [] s = Some (Inr s)"
| "insert_all alloc_ok (pair # rest) s =
     (case HashMap_insert alloc_ok pair s of
        Some (Inr s') \<Rightarrow> insert_all alloc_ok rest s'
      | r \<Rightarrow> r)"

text \<open>
  \<^verbatim>\<open>HashMap(const HashMap& other, Hash hash = Hash())\<close>. A copy, \<^verbatim>\<open>HashMap b(a)\<close>, takes the
  default argument: \<open>h\<close> is then the default-constructed \<^verbatim>\<open>Hash()\<close>.
\<close>

definition HashMap_copy ::
  "bool \<Rightarrow> ('k, 'v) HashMap \<Rightarrow> ('k \<Rightarrow> nat) \<Rightarrow> (error + ('k, 'v) HashMap) option" where
  "HashMap_copy alloc_ok other h = insert_all alloc_ok (map snd (values_list other)) (HashMap_new h)"

text \<open>
  A run of the public mutating operations, each with allocation succeeding; it stops at
  the first call that fails or does not return.
\<close>

datatype ('k, 'v) hm_op = Insert 'k 'v | Subscript 'k | Erase 'k | Clear

fun hm_step :: "'v \<Rightarrow> ('k, 'v) hm_op \<Rightarrow> ('k, 'v) HashMap \<Rightarrow> (error + ('k, 'v) HashMap) option" where
  "hm_step dflt (Insert k v) s = HashMap_insert True (k, v) s"
| "hm_step dflt (Subscript k) s =
     (case HashMap_subscript True dflt k s of
        None \<Rightarrow> None
      | Some (Inl e) \<Rightarrow> Some (Inl e)
      | Some (Inr (s', v)) \<Rightarrow> Some (Inr s'))"
| "hm_step dflt (Erase k) s = HashMap_erase k s"
| "hm_step dflt Clear s = (case HashMap_clear s of None \<Rightarrow> None | Some s' \<Rightarrow> Some (Inr s'))"

fun hm_run ::
  "'v \<Rightarrow> ('k, 'v) hm_op list \<Rightarrow> ('k, 'v) HashMap \<Rightarrow> (error + ('k, 'v) HashMap) option" where
  "hm_run dflt [] s = Some (Inr s)"
| "hm_run dflt (x # xs) s =
     (case hm_step dflt x s of
        Some (Inr s') \<Rightarrow> hm_run dflt xs s'
      | r \<Rightarrow> r)"

text \<open>
  What a run from the freshly constructed table lets a caller observe: \<open>Some (f s)\<close> when
  every call of the run returned normally and left the table \<open>s\<close>, \<open>None\<close> otherwise.
\<close>

definition hm_observe ::
  "'v \<Rightarrow> ('k, 'v) hm_op list \<Rightarrow> ('k \<Rightarrow> nat) \<Rightarrow> (('k, 'v) HashMap \<Rightarrow> 'a) \<Rightarrow> 'a option" where
  "hm_observe dflt ops h f =
     (case hm_run dflt ops (HashMap_new h) of Some (Inr s) \<Rightarrow> Some (f s) | _ \<Rightarrow> None)"

text \<open>
  The record list as the specification words it: the live key/value pairs, one per key, in
  the order of insertion. Inserting a key that is present changes nothing, erasing a key
  removes its pair, clearing removes all pairs.
\<close>

fun spec_step :: "'v \<Rightarrow> ('k, 'v) hm_op \<Rightarrow> ('k \<times> 'v) list \<Rightarrow> ('k \<times> 'v) list" where
  "spec_step dflt (Insert k v) rs = (if k \<in> fst ` set rs then rs else rs @ [(k, v)])"
| "spec_step dflt (Subscript k) rs = (if k \<in> fst ` set rs then rs else rs @ [(k, dflt)])"
| "spec_step dflt (Erase k) rs = filter (\<lambda>r. fst r \<noteq> k) rs"
| "spec_step dflt Clear rs = []"

definition spec_records :: "'v \<Rightarrow> ('k, 'v) hm_op list \<Rightarrow> ('k \<times> 'v) list" where
  "spec_records dflt ops = foldl (\<lambda>rs x. spec_step dflt x rs) [] ops"

text \<open>
  A slot that a lookup for \<open>key\<close> walks past: a tombstone, or a filled slot of another key.
\<close>

definition passes :: "('k, 'v) HashMap \<Rightarrow> 'k \<Rightarrow> nat \<Rightarrow> bool" where
  "passes s key p =
     (states s ! p = STATE_ERASED \<or>
      (states s ! p = STATE_FILLED \<and>
       (case deref (values_list s) (pointers s ! p) of None \<Rightarrow> False | Some kv \<Rightarrow> fst kv \<noteq> key)))"

definition all_pass :: "('k, 'v) HashMap \<Rightarrow> 'k \<Rightarrow> bool" where
  "all_pass s key = list_all (passes s key) [0..<length (pointers s)]"

text \<open>
  The bookkeeping that growth maintains: the capacity is a positive multiple of four and
  \<open>occupancy\<close> has not passed a quarter of it.
\<close>

definition size_inv :: "('k, 'v) HashMap \<Rightarrow> bool" where
  "size_inv s = (0 < length (pointers s) \<and> 4 dvd length (pointers s) \<and>
                 occupancy s * 4 \<le> length (pointers s))"

text \<open>How many steps a probe at \<open>position\<close> is away from slot \<open>e\<close>, going forward and wrapping.\<close>

definition probe_distance :: "nat \<Rightarrow> nat \<Rightarrow> nat \<Rightarrow> nat" where
  "probe_distance n e position = (if position \<le> e then e - position else e + n - position)"

text \<open>
  Three rounds of two insertions, two erasures and \<^verbatim>\<open>clear()\<close>, then two insertions: no
  call of the run finds \<^verbatim>\<open>occupancy * 4 >= 8\<close>, so the table keeps its eight slots.
\<close>

definition tombstone_run :: "(nat, nat) hm_op list" where
  "tombstone_run =
     [Insert 0 10, Insert 1 11, Erase 0, Erase 1, Clear,
      Insert 2 12, Insert 3 13, Erase 2, Erase 3, Clear,
      Insert 4 14, Insert 5 15, Erase 4, Erase 5, Clear,
      Insert 6 16, Insert 7 17]"

text \<open>A table of four slots: two records, a tombstone between them, one empty slot.\<close>

definition three_slots :: "(nat, nat) HashMap" where
  "three_slots =
     \<lparr>hash = (\<lambda>k. k), pointers = [At 0, Singular, At 1, Singular],
      values_list = [(0, (0, 10)), (1, (4, 11))],
      states = [STATE_FILLED, STATE_ERASED, STATE_FILLED, STATE_EMPTY],
      occupancy = 3, next_node = 3\<rparr>"

subsection \<open>What the lemmas about a table without clear speak of\<close>

text \<open>
  The number of slots that are not Empty, Filled or Erased: the slots that were made Filled
  since the table was last laid out afresh.
\<close>

definition nonempty_count :: "slot_state list \<Rightarrow> nat" where
  "nonempty_count sts = length (filter (\<lambda>t. t \<noteq> STATE_EMPTY) sts)"

text \<open>\<open>walk P n a b\<close>: stepping with \<open>next_position\<close> from slot a reaches slot b, and every slot left on the way satisfies P.\<close>

inductive walk :: "(nat \<Rightarrow> bool) \<Rightarrow> nat \<Rightarrow> nat \<Rightarrow> nat \<Rightarrow> bool" for P :: "nat \<Rightarrow> bool" and n :: nat where
  arrived: "walk P n a a"
| step: "P a \<Longrightarrow> walk P n (next_position n a) b \<Longrightarrow> walk P n a b"

text \<open>The key of the record that the list iterator of slot p points to.\<close>

definition slot_key :: "('k, 'v) HashMap \<Rightarrow> nat \<Rightarrow> 'k option" where
  "slot_key s p = map_option fst (deref (values_list s) (pointers s ! p))"

text \<open>The nodes of the record list.\<close>

definition handles :: "('k, 'v) HashMap \<Rightarrow> nat set" where
  "handles s = fst ` set (values_list s)"

text \<open>The keys of the live records.\<close>

definition keys :: "('k, 'v) HashMap \<Rightarrow> 'k set" where
  "keys s = fst ` set (HashMap_iterate s)"

text \<open>The two vectors have the same size, the load bound holds, and the non-empty slots
  that \<open>occupancy\<close> does not count (a growth resets it to 0) are fewer than a quarter of the
  slots, so that an Empty slot remains.\<close>

definition sizes_ok :: "('k, 'v) HashMap \<Rightarrow> bool" where
  "sizes_ok s =
     (length (states s) = length (pointers s) \<and> size_inv s \<and>
      4 * nonempty_count (states s) + 8 \<le> 4 * occupancy s + length (pointers s))"

text \<open>The Filled slots and the nodes of the record list are in one-to-one correspondence.\<close>

definition links_ok :: "('k, 'v) HashMap \<Rightarrow> bool" where
  "links_ok s =
     (distinct (map fst (values_list s)) \<and>
      (\<forall>p < length (pointers s). states s ! p = STATE_FILLED \<longrightarrow>
         (\<exists>m \<in> handles s. pointers s ! p = At m)) \<and>
      (\<forall>m \<in> handles s. \<exists>p < length (pointers s).
         states s ! p = STATE_FILLED \<and> pointers s ! p = At m) \<and>
      (\<forall>p < length (pointers s). \<forall>p' < length (pointers s).
         states s ! p = STATE_FILLED \<longrightarrow> states s ! p' = STATE_FILLED \<longrightarrow>
         pointers s ! p = pointers s ! p' \<longrightarrow> p = p'))"

text \<open>Moreover every node of the list was handed out by the allocator.\<close>

definition refs_ok :: "('k, 'v) HashMap \<Rightarrow> bool" where
  "refs_ok s = (links_ok s \<and> (\<forall>m \<in> handles s. m < next_node s))"

text \<open>Every Filled slot is reached from the home slot of its key over non-Empty slots only.\<close>

definition chains_ok :: "('k, 'v) HashMap \<Rightarrow> bool" where
  "chains_ok s =
     (\<forall>p < length (pointers s). \<forall>k. states s ! p = STATE_FILLED \<longrightarrow> slot_key s p = Some k \<longrightarrow>
        walk (\<lambda>q. states s ! q \<noteq> STATE_EMPTY) (length (pointers s))
          (hash s k mod length (pointers s)) p)"

text \<open>The invariant of a table that was never cleared.\<close>

definition hm_inv :: "('k, 'v) HashMap \<Rightarrow> bool" where
  "hm_inv s = (sizes_ok s \<and> refs_ok s \<and> chains_ok s)"

text \<open>The iterator of every Filled slot can be dereferenced.\<close>

definition derefs_ok :: "('k, 'v) HashMap \<Rightarrow> bool" where
  "derefs_ok s =
     (\<forall>p < length (pointers s). states s ! p = STATE_FILLED \<longrightarrow> slot_key s p \<noteq> None)"

text \<open>The slots a lookup of \<open>key\<close> steps over.\<close>

definition lookup_pass :: "('k, 'v) HashMap \<Rightarrow> 'k \<Rightarrow> nat \<Rightarrow> bool" where
  "lookup_pass s key p =
     (states s ! p = STATE_ERASED \<or> (states s ! p = STATE_FILLED \<and> slot_key s p \<noteq> Some key))"

text \<open>What one round of the loop of \<open>check_size\<close>, and the end of \<open>insert\<close>, write: record \<open>kv\<close> in node m, at slot q.\<close>

definition place :: "('k, 'v) HashMap \<Rightarrow> nat \<Rightarrow> nat \<Rightarrow> 'k \<times> 'v \<Rightarrow> ('k, 'v) HashMap" where
  "place s q m kv =
     s\<lparr>values_list := values_list s @ [(m, kv)], pointers := (pointers s)[q := At m],
       states := (states s)[q := STATE_FILLED]\<rparr>"

text \<open>What \<open>erase\<close> writes: node m leaves the list, slot q becomes a tombstone.\<close>

definition unlink :: "('k, 'v) HashMap \<Rightarrow> nat \<Rightarrow> nat \<Rightarrow> ('k, 'v) HashMap" where
  "unlink s q m =
     s\<lparr>values_list := list_erase m (values_list s), states := (states s)[q := STATE_ERASED]\<rparr>"

text \<open>The operations that never erase.\<close>

fun inserts_only :: "('k, 'v) hm_op \<Rightarrow> bool" where
  "inserts_only (Insert k v) = True"
| "inserts_only (Subscript k) = True"
| "inserts_only (Erase k) = False"
| "inserts_only Clear = False"

section \<open>Set: a height-balanced search tree with parent links\<close>

text \<open>
  The class \<^verbatim>\<open>Set<ValueType>\<close> with its \<^verbatim>\<open>Node\<close> and \<^verbatim>\<open>SetIterator\<close>. A node owns its two
  children, so the nodes below a pointer form a value of the datatype \<open>node\<close>, with \<open>Null\<close>
  for \<^verbatim>\<open>nullptr\<close>. Parent links and iterators point back into that structure; each node
  therefore carries its address (a \<open>nat\<close>, distinct for distinct live nodes), and a parent
  link or an iterator holds an address or \<open>None\<close> for \<^verbatim>\<open>nullptr\<close>. The fields of
  \<open>Node a l r p v h\<close> are the address, then \<^verbatim>\<open>left\<close>, \<^verbatim>\<open>right\<close>, \<^verbatim>\<open>parent\<close>, \<^verbatim>\<open>value\<close> and
  \<^verbatim>\<open>height\<close> in the order of the \<^verbatim>\<open>struct\<close>.

  \<open>ValueType\<close> is a linear order: the code compares with \<^verbatim>\<open><\<close> only.
\<close>

datatype 'a node = Null | Node nat "'a node" "'a node" "nat option" 'a nat

text \<open>The value of a pointer to a node.\<close>

fun node_addr :: "'a node \<Rightarrow> nat option" where
  "node_addr Null = None"
| "node_addr (Node a l r p v h) = Some a"

text \<open>\<^verbatim>\<open>n == nullptr ? 0 : n->height\<close>, as \<^verbatim>\<open>get_balance\<close> reads a child's height.\<close>

fun cached_height :: "'a node \<Rightarrow> nat" where
  "cached_height Null = 0"
| "cached_height (Node a l r p v h) = h"

text \<open>
  \<^verbatim>\<open>update_height\<close>: the new value of \<^verbatim>\<open>height\<close> for a node with the children \<open>l\<close> and \<open>r\<close>,
  statement by statement.
\<close>

definition update_height :: "'a node \<Rightarrow> 'a node \<Rightarrow> nat" where
  "update_height l r =
     (let height = 1;
          height = (if l \<noteq> Null then max height (cached_height l + 1) else height);
          height = (if r \<noteq> Null then max height (cached_height r + 1) else height)
      in height)"

text \<open>
  \<^verbatim>\<open>get_balance\<close> of a node with the children \<open>l\<close> and \<open>r\<close>. The C++ subtracts in \<^verbatim>\<open>size_t\<close>
  and converts to \<^verbatim>\<open>int\<close>, which is the integer difference for heights below \<open>2 ^ 31\<close>; the
  height of a tree that fits in memory is far below that.
\<close>

definition get_balance :: "'a node \<Rightarrow> 'a node \<Rightarrow> int" where
  "get_balance l r = int (cached_height l) - int (cached_height r)"

text \<open>\<^verbatim>\<open>if (m != nullptr) m->parent = a;\<close>\<close>

fun set_parent :: "nat option \<Rightarrow> 'a node \<Rightarrow> 'a node" where
  "set_parent q Null = Null"
| "set_parent q (Node a l r p v h) = Node a l r q v h"

text \<open>
  The rotations take the pointer \<^verbatim>\<open>a\<close> by reference and store the new subtree root in it;
  here they return the new subtree. A rotation of a node that lacks the child it moves up
  dereferences \<^verbatim>\<open>nullptr\<close>.
\<close>

fun rotate_left :: "'a node \<Rightarrow> error + 'a node" where
  "rotate_left (Node a l (Node b m n bp bv bh) ap av ah) =
     (let m' = set_parent (Some a) m;
          a' = Node a l m' (Some b) av (update_height l m')
      in Inr (Node b a' n ap bv (update_height a' n)))"
| "rotate_left _ = Inl NullPointer"

fun rotate_right :: "'a node \<Rightarrow> error + 'a node" where
  "rotate_right (Node a (Node b l m bp bv bh) n ap av ah) =
     (let m' = set_parent (Some a) m;
          a' = Node a m' n (Some b) av (update_height m' n)
      in Inr (Node b l a' ap bv (update_height l a')))"
| "rotate_right _ = Inl NullPointer"

fun big_rotate_left :: "'a node \<Rightarrow> error + 'a node" where
  "big_rotate_left (Node a l r p v h) =
     (case rotate_right r of
        Inl e \<Rightarrow> Inl e
      | Inr r' \<Rightarrow> rotate_left (Node a l r' p v h))"
| "big_rotate_left Null = Inl NullPointer"

fun big_rotate_right :: "'a node \<Rightarrow> error + 'a node" where
  "big_rotate_right (Node a l r p v h) =
     (case rotate_left l of
        Inl e \<Rightarrow> Inl e
      | Inr l' \<Rightarrow> rotate_right (Node a l' r p v h))"
| "big_rotate_right Null = Inl NullPointer"

fun balance_node :: "'a node \<Rightarrow> error + 'a node" where
  "balance_node Null = Inl NullPointer"
| "balance_node (Node a l r p v h) =
     (let balance = get_balance l r in
      if balance = - 2 then
        (case r of
           Null \<Rightarrow> Inl NullPointer
         | Node b rl rr bp bv bh \<Rightarrow>
             if get_balance rl rr = 1 then big_rotate_left (Node a l r p v h)
             else rotate_left (Node a l r p v h))
      else if balance = 2 then
        (case l of
           Null \<Rightarrow> Inl NullPointer
         | Node b ll lr bp bv bh \<Rightarrow>
             if get_balance ll lr = - 1 then big_rotate_right (Node a l r p v h)
             else rotate_right (Node a l r p v h))
      else Inr (Node a l r p v h))"

text \<open>
  \<^verbatim>\<open>node->update_height(); balance_node(node);\<close>, the two statements that close
  \<^verbatim>\<open>insert_value\<close> and \<^verbatim>\<open>erase_value\<close>; \<open>st\<close> is the state the call hands back unchanged.
\<close>

definition rebalance :: "'a node \<Rightarrow> 's \<Rightarrow> error + ('a node \<times> 's)" where
  "rebalance t st =
     (case t of
        Null \<Rightarrow> Inl NullPointer
      | Node a l r p v h \<Rightarrow>
          (case balance_node (Node a l r p v (update_height l r)) of
             Inl e \<Rightarrow> Inl e
           | Inr t' \<Rightarrow> Inr (t', st)))"

text \<open>\<^verbatim>\<open>Node::equal\<close>: neither value is below the other.\<close>

definition node_equal :: "'a::linorder \<Rightarrow> 'a \<Rightarrow> bool" where
  "node_equal v val = (\<not> (val < v) \<and> \<not> (v < val))"

text \<open>
  \<^verbatim>\<open>insert_value(node, value, parent)\<close>. The call works on the subtree behind the reference
  \<^verbatim>\<open>node\<close> and on two members of the set, the allocator (\<open>fresh\<close> is the address \<^verbatim>\<open>new Node\<close>
  returns next) and \<^verbatim>\<open>num_values\<close>; it returns all three.
\<close>

fun insert_value ::
  "'a::linorder \<Rightarrow> nat option \<Rightarrow> 'a node \<Rightarrow> nat \<times> nat \<Rightarrow> error + ('a node \<times> nat \<times> nat)" where
  "insert_value val par Null (fresh, num_values) =
     Inr (Node fresh Null Null par val 1, fresh + 1, num_values + 1)"
| "insert_value val par (Node a l r p v h) (fresh, num_values) =
     (if node_equal v val then Inr (Node a l r p v h, fresh, num_values)
      else if val < v then
        (case insert_value val (Some a) l (fresh, num_values) of
           Inl e \<Rightarrow> Inl e
         | Inr (l', st) \<Rightarrow> rebalance (Node a l' r p v h) st)
      else
        (case insert_value val (Some a) r (fresh, num_values) of
           Inl e \<Rightarrow> Inl e
         | Inr (r', st) \<Rightarrow> rebalance (Node a l r' p v h) st))"

text \<open>
  The first half of the two-child case of \<^verbatim>\<open>erase_value\<close>: \<^verbatim>\<open>near\<close> walks from
  \<^verbatim>\<open>node->right\<close> down the left links, then \<^verbatim>\<open>std::swap(node->value, near->value)\<close>.
  \<open>swap_leftmost v r\<close> returns the value that \<^verbatim>\<open>node\<close> receives and the subtree with \<open>v\<close> written
  into \<^verbatim>\<open>near\<close>; \<open>swap_rightmost\<close> is the mirror image on \<^verbatim>\<open>node->left\<close>.
\<close>

fun swap_leftmost :: "'a \<Rightarrow> 'a node \<Rightarrow> error + ('a \<times> 'a node)" where
  "swap_leftmost v Null = Inl NullPointer"
| "swap_leftmost v (Node a l r p w h) =
     (if l \<noteq> Null then
        (case swap_leftmost v l of
           Inl e \<Rightarrow> Inl e
         | Inr (u, l') \<Rightarrow> Inr (u, Node a l' r p w h))
      else Inr (w, Node a l r p v h))"

fun swap_rightmost :: "'a \<Rightarrow> 'a node \<Rightarrow> error + ('a \<times> 'a node)" where
  "swap_rightmost v Null = Inl NullPointer"
| "swap_rightmost v (Node a l r p w h) =
     (if r \<noteq> Null then
        (case swap_rightmost v r of
           Inl e \<Rightarrow> Inl e
         | Inr (u, r') \<Rightarrow> Inr (u, Node a l r' p w h))
      else Inr (w, Node a l r p v h))"

lemma swap_leftmost_size: "swap_leftmost v t = Inr (u, t') \<Longrightarrow> size t' = size t"
  by (induction t arbitrary: t') (auto split: if_splits sum.splits)

lemma swap_rightmost_size: "swap_rightmost v t = Inr (u, t') \<Longrightarrow> size t' = size t"
  by (induction t arbitrary: t') (auto split: if_splits sum.splits)

text \<open>
  \<^verbatim>\<open>erase_value(node, value)\<close>, on the subtree behind \<^verbatim>\<open>node\<close> and on \<^verbatim>\<open>num_values\<close>. After a
  swap the call recurses into the subtree that now holds the value, so the recursion is
  on a tree of the same size as the child, not on the child itself.
\<close>

function erase_value :: "'a::linorder \<Rightarrow> 'a node \<Rightarrow> nat \<Rightarrow> error + ('a node \<times> nat)" where
  "erase_value val Null num_values = Inr (Null, num_values)"
| "erase_value val (Node a l r p v h) num_values =
     (if node_equal v val then
        if l = Null \<and> r = Null then Inr (Null, num_values - 1)
        else if l = Null \<or> (r \<noteq> Null \<and> cached_height r > cached_height l) then
          (case swap_leftmost v r of
             Inl e \<Rightarrow> Inl e
           | Inr (u, r1) \<Rightarrow>
               (case erase_value val r1 num_values of
                  Inl e \<Rightarrow> Inl e
                | Inr (r', n) \<Rightarrow> rebalance (Node a l r' p u h) n))
        else
          (case swap_rightmost v l of
             Inl e \<Rightarrow> Inl e
           | Inr (u, l1) \<Rightarrow>
               (case erase_value val l1 num_values of
                  Inl e \<Rightarrow> Inl e
                | Inr (l', n) \<Rightarrow> rebalance (Node a l' r p u h) n))
      else if val < v then
        (case erase_value val l num_values of
           Inl e \<Rightarrow> Inl e
         | Inr (l', n) \<Rightarrow> rebalance (Node a l' r p v h) n)
      else
        (case erase_value val r num_values of
           Inl e \<Rightarrow> Inl e
         | Inr (r', n) \<Rightarrow> rebalance (Node a l r' p v h) n))"
  by pat_completeness auto
termination
  by (relation "measure (\<lambda>(val, t, n). size t)")
    (auto simp: swap_leftmost_size swap_rightmost_size)

text \<open>\<^verbatim>\<open>while (node->left != nullptr) node = node->left;\<close>, from the root of a subtree.\<close>

fun leftmost :: "'a node \<Rightarrow> nat option" where
  "leftmost Null = None"
| "leftmost (Node a l r p v h) = (if l \<noteq> Null then leftmost l else Some a)"

text \<open>
  The members of \<^verbatim>\<open>Set\<close>; \<open>root\<close> is the owning pointer, so it holds the whole tree, and
  \<open>next_addr\<close> is the allocator.
\<close>

record 'a Set_rec =
  root :: "'a node"
  first_node :: "nat option"
  num_values :: nat
  next_addr :: nat

definition Set_new :: "'a Set_rec" where
  "Set_new = \<lparr>root = Null, first_node = None, num_values = 0, next_addr = 0\<rparr>"

definition update_first_node :: "'a Set_rec \<Rightarrow> 'a Set_rec" where
  "update_first_node s =
     (if root s = Null then s\<lparr>first_node := None\<rparr> else s\<lparr>first_node := leftmost (root s)\<rparr>)"

definition Set_insert :: "'a::linorder \<Rightarrow> 'a Set_rec \<Rightarrow> error + 'a Set_rec" where
  "Set_insert val s =
     (case insert_value val None (root s) (next_addr s, num_values s) of
        Inl e \<Rightarrow> Inl e
      | Inr (t, fresh, n) \<Rightarrow>
          Inr (update_first_node (s\<lparr>root := t, next_addr := fresh, num_values := n\<rparr>)))"

definition Set_erase :: "'a::linorder \<Rightarrow> 'a Set_rec \<Rightarrow> error + 'a Set_rec" where
  "Set_erase val s =
     (case erase_value val (root s) (num_values s) of
        Inl e \<Rightarrow> Inl e
      | Inr (t, n) \<Rightarrow> Inr (update_first_node (s\<lparr>root := t, num_values := n\<rparr>)))"

text \<open>\<^verbatim>\<open>SetIterator\<close>: the pointers \<^verbatim>\<open>node\<close> and \<^verbatim>\<open>root\<close>.\<close>

record SetIterator =
  it_node :: "nat option"
  it_root :: "nat option"

definition Set_begin :: "'a Set_rec \<Rightarrow> SetIterator" where
  "Set_begin s = \<lparr>it_node = first_node s, it_root = node_addr (root s)\<rparr>"

definition Set_end :: "'a Set_rec \<Rightarrow> SetIterator" where
  "Set_end s = \<lparr>it_node = None, it_root = node_addr (root s)\<rparr>"

text \<open>
  Dereferencing a pointer: the node of the tree with that address, \<open>Null\<close> when no live
  node has it.
\<close>

fun find_node :: "nat \<Rightarrow> 'a node \<Rightarrow> 'a node" where
  "find_node x Null = Null"
| "find_node x (Node a l r p v h) =
     (if x = a then Node a l r p v h
      else (case find_node x l of Null \<Rightarrow> find_node x r | Node b bl br bp bv bh \<Rightarrow> Node b bl br bp bv bh))"

text \<open>
  \<^verbatim>\<open>while (node != root && node == node->parent->right) node = node->parent;\<close>. The
  loop follows parent links, which nothing bounds, so it is a partial function.
\<close>

partial_function (option) climb :: "'a node \<Rightarrow> nat option \<Rightarrow> nat \<Rightarrow> (error + nat) option" where
  "climb t rt n =
     (if Some n \<noteq> rt then
        (case find_node n t of
           Null \<Rightarrow> Some (Inl InvalidIterator)
         | Node a l r p v h \<Rightarrow>
             (case p of
                None \<Rightarrow> Some (Inl NullPointer)
              | Some q \<Rightarrow>
                  (case find_node q t of
                     Null \<Rightarrow> Some (Inl InvalidIterator)
                   | Node qa ql qr qp qv qh \<Rightarrow>
                       if Some n = node_addr qr then climb t rt q else Some (Inr n))))
      else Some (Inr n))"

declare climb.simps [code]

text \<open>
  The \<^verbatim>\<open>else\<close> branch of \<^verbatim>\<open>operator++\<close>: the climbing loop, then \<^verbatim>\<open>node = node->parent\<close>.
\<close>

definition climb_to_parent :: "'a node \<Rightarrow> nat option \<Rightarrow> nat \<Rightarrow> (error + nat option) option" where
  "climb_to_parent t rt n =
     (case climb t rt n of
        None \<Rightarrow> None
      | Some (Inl e) \<Rightarrow> Some (Inl e)
      | Some (Inr m) \<Rightarrow>
          (case find_node m t of
             Null \<Rightarrow> Some (Inl InvalidIterator)
           | Node ma ml mr mp mv mh \<Rightarrow> Some (Inr mp)))"

text \<open>\<^verbatim>\<open>operator++\<close>, on an iterator into the tree \<open>t\<close>.\<close>

definition SetIterator_incr :: "'a node \<Rightarrow> SetIterator \<Rightarrow> (error + SetIterator) option" where
  "SetIterator_incr t it =
     (case it_node it of
        None \<Rightarrow> Some (Inl NullPointer)
      | Some n \<Rightarrow>
          (case find_node n t of
             Null \<Rightarrow> Some (Inl InvalidIterator)
           | Node a l r p v h \<Rightarrow>
               if r \<noteq> Null then Some (Inr (it\<lparr>it_node := leftmost r\<rparr>))
               else
                 (case climb_to_parent t (it_root it) n of
                    None \<Rightarrow> None
                  | Some (Inl e) \<Rightarrow> Some (Inl e)
                  | Some (Inr m) \<Rightarrow> Some (Inr (it\<lparr>it_node := m\<rparr>)))))"

text \<open>
  \<^verbatim>\<open>for (it = begin(); it != end(); ++it) visit(*it);\<close>, with \<open>acc\<close> the values visited
  so far and \<open>stop\<close> the iterator \<^verbatim>\<open>end()\<close>.
\<close>

partial_function (option) iterate_loop ::
  "'a node \<Rightarrow> SetIterator \<Rightarrow> SetIterator \<Rightarrow> 'a list \<Rightarrow> (error + 'a list) option" where
  "iterate_loop t stop it acc =
     (if \<not> (it_node it = it_node stop \<and> it_root it = it_root stop) then
        (case it_node it of
           None \<Rightarrow> Some (Inl NullPointer)
         | Some n \<Rightarrow>
             (case find_node n t of
                Null \<Rightarrow> Some (Inl InvalidIterator)
              | Node a l r p v h \<Rightarrow>
                  (case SetIterator_incr t it of
                     None \<Rightarrow> None
                   | Some (Inl e) \<Rightarrow> Some (Inl e)
                   | Some (Inr it') \<Rightarrow> iterate_loop t stop it' (acc @ [v]))))
      else Some (Inr acc))"

declare iterate_loop.simps [code]

definition Set_iterate :: "'a Set_rec \<Rightarrow> (error + 'a list) option" where
  "Set_iterate s = iterate_loop (root s) (Set_end s) (Set_begin s) []"

text \<open>A run of \<^verbatim>\<open>insert\<close> and \<^verbatim>\<open>erase\<close> calls; it stops at the first call that fails.\<close>

datatype 'a set_op = SetInsert 'a | SetErase 'a

fun Set_step :: "'a::linorder set_op \<Rightarrow> 'a Set_rec \<Rightarrow> error + 'a Set_rec" where
  "Set_step (SetInsert x) s = Set_insert x s"
| "Set_step (SetErase x) s = Set_erase x s"

fun Set_run :: "'a::linorder set_op list \<Rightarrow> 'a Set_rec \<Rightarrow> error + 'a Set_rec" where
  "Set_run [] s = Inr s"
| "Set_run (x # xs) s = (case Set_step x s of Inl e \<Rightarrow> Inl e | Inr s' \<Rightarrow> Set_run xs s')"

text \<open>\<open>size()\<close> returns the counter.\<close>

definition Set_size :: "'a Set_rec \<Rightarrow> nat" where
  "Set_size s = num_values s"

subsection \<open>What the claims about the tree speak of\<close>

text \<open>The height of a subtree, a missing child counting as 0.\<close>

fun hgt :: "'a node \<Rightarrow> nat" where
  "hgt Null = 0"
| "hgt (Node a l r p v h) = max (hgt l) (hgt r) + 1"

text \<open>
  Every node is balanced, and its \<^verbatim>\<open>height\<close> field is one more than the larger height of
  its children.
\<close>

fun avl :: "'a node \<Rightarrow> bool" where
  "avl Null = True"
| "avl (Node a l r p v h) =
     (\<bar>int (hgt l) - int (hgt r)\<bar> \<le> 1 \<and> h = 1 + max (hgt l) (hgt r) \<and> avl l \<and> avl r)"

text \<open>The values and the addresses of a subtree, left to right.\<close>

fun inorder :: "'a node \<Rightarrow> 'a list" where
  "inorder Null = []"
| "inorder (Node a l r p v h) = inorder l @ v # inorder r"

fun addrs :: "'a node \<Rightarrow> nat list" where
  "addrs Null = []"
| "addrs (Node a l r p v h) = addrs l @ a # addrs r"

text \<open>Every parent link of the subtree is right, \<open>q\<close> being the link of its root.\<close>

fun parents_ok :: "nat option \<Rightarrow> 'a node \<Rightarrow> bool" where
  "parents_ok q Null = True"
| "parents_ok q (Node a l r p v h) = (p = q \<and> parents_ok (Some a) l \<and> parents_ok (Some a) r)"

definition bst :: "'a::linorder node \<Rightarrow> bool" where
  "bst t = sorted_wrt (<) (inorder t)"

text \<open>What every public operation of \<^verbatim>\<open>Set\<close> keeps.\<close>

definition Set_inv :: "'a::linorder Set_rec \<Rightarrow> bool" where
  "Set_inv s =
     (avl (root s) \<and> bst (root s) \<and> distinct (addrs (root s)) \<and> parents_ok None (root s) \<and>
      list_all (\<lambda>x. x < next_addr s) (addrs (root s)) \<and> first_node s = leftmost (root s))"

text \<open>The values a run has stored: what was inserted and not erased since.\<close>

fun stored_step :: "'a set_op \<Rightarrow> 'a set \<Rightarrow> 'a set" where
  "stored_step (SetInsert x) S = insert x S"
| "stored_step (SetErase x) S = S - {x}"

definition stored_values :: "'a set_op list \<Rightarrow> 'a set" where
  "stored_values ops = foldl (\<lambda>S x. stored_step x S) {} ops"

section \<open>HashMap: what the code does\<close>

subsection \<open>Insertion behind a tombstone\<close>

text \<open>
  C3. Iteration is claimed to yield exactly the live records, in the order in which their
  keys were inserted. With the identity hash, the keys 0, 16 and 32 meet in slot 0 of the
  table of 8 and of 16 slots. After \<^verbatim>\<open>insert(0), insert(16), insert(32), erase(0)\<close> slot 0 is
  a tombstone and key 16 lives in slot 1; \<^verbatim>\<open>insert(16, 99)\<close> then stops at the tombstone,
  before it has seen slot 1, and appends a second record for key 16. Iteration yields three
  records where the specification's record list has two.
\<close>

theorem iteration_after_reinsert_behind_tombstone:
  "hm_observe 0 [Insert 0 10, Insert 16 11, Insert 32 12, Erase 0, Insert 16 99] (\<lambda>k. k)
     HashMap_iterate = Some [(16, 11), (32, 12), (16::nat, 99::nat)] \<and>
   spec_records 0 [Insert 0 10, Insert 16 11, Insert 32 12, Erase 0, Insert 16 99]
     = [(16, 11), (32::nat, 12::nat)]"
  by code_simp

text \<open>
  C4. \<^verbatim>\<open>insert(k, w)\<close> is claimed to change nothing when \<open>k\<close> is present. In the table of the
  run above key 16 is present with value 11 and the size is 2; after \<^verbatim>\<open>insert(16, 99)\<close> the
  size is 3, \<^verbatim>\<open>at(16)\<close> answers 99 and iteration has a third record.
\<close>

theorem insert_of_present_key_appends:
  "hm_observe 0 [Insert 0 10, Insert 16 11, Insert 32 12, Erase 0] (\<lambda>k. k)
     (\<lambda>s. (HashMap_size s, HashMap_at 16 s, HashMap_iterate s))
     = Some (2, Some (Inr 11), [(16::nat, 11::nat), (32, 12)]) \<and>
   hm_observe 0 [Insert 0 10, Insert 16 11, Insert 32 12, Erase 0, Insert 16 99] (\<lambda>k. k)
     (\<lambda>s. (HashMap_size s, HashMap_at 16 s, HashMap_iterate s))
     = Some (3, Some (Inr 99), [(16::nat, 11::nat), (32, 12), (16, 99)])"
  by code_simp

text \<open>
  C10. A copy is claimed to hold the pairs of its source in the same order. The copy
  constructor inserts the source's records one by one into a fresh table, where a second
  record of a key is refused; copying the table of the run above gives two records, and
  \<^verbatim>\<open>at(16)\<close> answers 11 on the copy and 99 on the source.
\<close>

theorem copy_drops_shadowed_record:
  "hm_observe 0 [Insert 0 10, Insert 16 11, Insert 32 12, Erase 0, Insert 16 99] (\<lambda>k. k)
     (\<lambda>s. (HashMap_iterate s, HashMap_at 16 s,
           map_option (map_sum id (\<lambda>c. (HashMap_iterate c, HashMap_at 16 c)))
             (HashMap_copy True s (\<lambda>k. k))))
     = Some ([(16, 11), (32, 12), (16::nat, 99::nat)], Some (Inr 99),
             Some (Inr ([(16, 11), (32, 12)], Some (Inr 11))))"
  by code_simp

subsection \<open>The load bound\<close>

lemma rehash_loop_shape:
  "rehash_loop h rs (np, sts, occ) = Some (np', sts', occ') \<Longrightarrow>
     length np' = length np \<and> occ' = (if rs = [] then occ else 0)"
proof (induction rs arbitrary: np sts occ)
  case Nil
  then show ?case by simp
next
  case (Cons r rs)
  from Cons.prems obtain position where
    "rehash_loop h rs (np[position := At (fst r)], sts[position := STATE_FILLED], 0) =
       Some (np', sts', occ')"
    by (auto split: option.splits)
  from Cons.IH [OF this] show ?case by (simp split: if_splits)
qed

lemma check_size_bound:
  assumes "size_inv s" and "check_size True s = Some s'"
  shows "0 < length (pointers s') \<and> 4 dvd length (pointers s') \<and>
         occupancy s' * 4 < length (pointers s')"
proof (cases "occupancy s * OCCUPANCY_COEFFICIENT \<ge> length (pointers s)")
  case False
  with assms show ?thesis
    by (auto simp: check_size_def size_inv_def OCCUPANCY_COEFFICIENT_def)
next
  case True
  with assms(2) obtain np sts occ where
    r: "rehash_loop (hash s) (values_list s)
          (replicate (length (pointers s) * 2) Singular,
           replicate (length (pointers s) * 2) STATE_EMPTY, occupancy s) = Some (np, sts, occ)"
    and s': "s' = s\<lparr>pointers := np, states := sts, occupancy := occ\<rparr>"
    by (auto simp: check_size_def split: option.splits)
  from rehash_loop_shape [OF r] have "length np = length (pointers s) * 2"
    and "occ = 0 \<or> occ = occupancy s" by (auto split: if_splits)
  moreover from assms(1) have a: "0 < length (pointers s)" and d: "4 dvd length (pointers s)"
    and b: "occupancy s * 4 \<le> length (pointers s)"
    by (simp_all add: size_inv_def)
  moreover from a b have "occupancy s * 4 < length (pointers s) * 2" by linarith
  ultimately show ?thesis using s' by auto
qed

lemma append_record_size_inv:
  assumes "0 < length (pointers s)" "4 dvd length (pointers s)"
    "occupancy s * 4 < length (pointers s)"
  shows "size_inv (append_record s position pair)"
proof -
  from assms(2) obtain c where c: "length (pointers s) = 4 * c" by (auto simp: dvd_def)
  with assms(3) have "occupancy s < c" by simp
  then have "(occupancy s + 1) * 4 \<le> length (pointers s)" using c by simp
  with assms show ?thesis by (auto simp: size_inv_def append_record_def)
qed

lemma HashMap_insert_size_inv:
  assumes "size_inv s" and "HashMap_insert True pair s = Some (Inr s')"
  shows "size_inv s'"
proof -
  from assms(2) obtain s1 where c: "check_size True s = Some s1"
    by (auto simp: HashMap_insert_def split: option.splits)
  note b = check_size_bound [OF assms(1) c]
  from b have i1: "size_inv s1" by (simp add: size_inv_def)
  from assms(2) c have "s' = s1 \<or> (\<exists>position. s' = append_record s1 position pair)"
    by (auto simp: HashMap_insert_def split: option.splits sum.splits)
  with i1 b show ?thesis by (auto intro: append_record_size_inv)
qed

lemma HashMap_subscript_size_inv:
  assumes "size_inv s" and "HashMap_subscript True dflt key s = Some (Inr (s', v))"
  shows "size_inv s'"
proof -
  from assms(2) obtain s1 where c: "check_size True s = Some s1"
    by (auto simp: HashMap_subscript_def split: option.splits)
  note b = check_size_bound [OF assms(1) c]
  from b have i1: "size_inv s1" by (simp add: size_inv_def)
  from assms(2) c have "s' = s1 \<or> (\<exists>position. s' = append_record s1 position (key, dflt))"
    by (auto simp: HashMap_subscript_def split: option.splits sum.splits if_splits)
  with i1 b show ?thesis by (auto intro: append_record_size_inv)
qed

lemma HashMap_erase_size_inv:
  "size_inv s \<Longrightarrow> HashMap_erase key s = Some (Inr s') \<Longrightarrow> size_inv s'"
  by (auto simp: HashMap_erase_def size_inv_def
      split: option.splits sum.splits if_splits list_iterator.splits)

lemma HashMap_clear_size_inv:
  "size_inv s \<Longrightarrow> HashMap_clear s = Some s' \<Longrightarrow> size_inv s'"
  by (auto simp: HashMap_clear_def size_inv_def split: option.splits)

lemma hm_step_size_inv:
  "size_inv s \<Longrightarrow> hm_step dflt x s = Some (Inr s') \<Longrightarrow> size_inv s'"
  by (cases x)
    (auto dest: HashMap_insert_size_inv HashMap_subscript_size_inv HashMap_erase_size_inv
       HashMap_clear_size_inv split: option.splits sum.splits)

lemma hm_run_size_inv:
  "size_inv s \<Longrightarrow> hm_run dflt ops s = Some (Inr s') \<Longrightarrow> size_inv s'"
proof (induction ops arbitrary: s)
  case Nil
  then show ?case by simp
next
  case (Cons x xs)
  then show ?case
    by (auto split: option.splits sum.splits dest: hm_step_size_inv)
qed

lemma HashMap_new_size_inv: "size_inv (HashMap_new h)"
  by (simp add: size_inv_def HashMap_new_def INITIAL_SIZE_def)

text \<open>
  The member \<open>occupancy\<close> alone, whatever it counts. The size check opens \<^verbatim>\<open>insert\<close> and
  \<^verbatim>\<open>operator[]\<close>, and the slot is counted after it: two insertions into the fresh table leave
  \<open>occupancy = 2\<close> in 8 slots, and \<open>2 * 4 < 8\<close> is false.
\<close>

lemma occupancy_bound_not_strict:
  "hm_observe 0 [Insert 0 10, Insert 1 11] (\<lambda>k. k)
     (\<lambda>s :: (nat, nat) HashMap. (occupancy s, length (pointers s),
           occupancy s * OCCUPANCY_COEFFICIENT < length (pointers s)))
     = Some (2, 8, False)"
  by code_simp

text \<open>
  After every run of \<^verbatim>\<open>insert\<close>, \<^verbatim>\<open>operator[]\<close>, \<^verbatim>\<open>erase\<close> and \<^verbatim>\<open>clear\<close> from the constructed
  table in which growth could allocate, the member satisfies \<^verbatim>\<open>occupancy * 4 <= capacity\<close>.
\<close>

lemma occupancy_bound:
  "hm_run dflt ops (HashMap_new h) = Some (Inr s) \<Longrightarrow>
     occupancy s * OCCUPANCY_COEFFICIENT \<le> length (pointers s)"
  using hm_run_size_inv [OF HashMap_new_size_inv, of dflt ops h s]
  by (simp add: size_inv_def OCCUPANCY_COEFFICIENT_def)

text \<open>
  The member is not the count it is meant to be. Six insertions and no other call: the third
  one doubles the 8 slots to 16 and \<^verbatim>\<open>check_size\<close> leaves \<open>occupancy = 0\<close>, so that after the sixth
  the member reads 4 while 6 of the 16 slots are Filled, more than a quarter of them.
\<close>

lemma occupancy_undercounts_after_growth:
  "hm_observe 0 [Insert 0 10, Insert 1 11, Insert 2 12, Insert 3 13, Insert 4 14, Insert 5 15]
     (\<lambda>k. k)
     (\<lambda>s :: (nat, nat) HashMap. (occupancy s, nonempty_count (states s), length (pointers s),
           nonempty_count (states s) * OCCUPANCY_COEFFICIENT \<le> length (pointers s)))
     = Some (4, 6, 16, False)"
  by code_simp

text \<open>
  C5. After every mutating operation \<^verbatim>\<open>occupancy * 4 < capacity\<close> is claimed, \<open>occupancy\<close> being
  the number of slots made Filled since the last rehash, those later marked Erased included.
  In \<open>tombstone_run\<close> the table never grows, each of its 8 slots is made Filled once, and six
  of them are Erased afterwards: all 8 slots are counted by the claim, and \<open>8 * 4\<close> is neither
  below nor equal to the capacity 8. The member \<open>occupancy\<close> reads 2, because \<^verbatim>\<open>clear()\<close> set it
  to 0 three times and left the tombstones in place.
\<close>

theorem occupancy_misses_tombstones:
  "hm_observe 0 tombstone_run (\<lambda>k. k)
     (\<lambda>s. (states s, occupancy s, nonempty_count (states s), length (pointers s),
           nonempty_count (states s) * OCCUPANCY_COEFFICIENT < length (pointers s),
           nonempty_count (states s) * OCCUPANCY_COEFFICIENT \<le> length (pointers s)))
     = Some ([STATE_ERASED, STATE_ERASED, STATE_ERASED, STATE_ERASED, STATE_ERASED, STATE_ERASED,
              STATE_FILLED, STATE_FILLED], 2, 8, 8, False, False)"
  unfolding tombstone_run_def by code_simp

text \<open>
  C6. Growth is claimed to leave \<open>occupancy\<close> equal to the number of live records. The loop
  of \<^verbatim>\<open>check_size\<close> assigns \<^verbatim>\<open>occupancy = 0\<close> once per record: after two insertions the check
  doubles the 8 slots to 16, keeps both records and leaves \<open>occupancy = 0\<close>.
\<close>

theorem check_size_leaves_occupancy_zero:
  "hm_observe 0 [Insert 0 10, Insert 1 11] (\<lambda>k. k)
     (\<lambda>s :: (nat, nat) HashMap.
        (occupancy s * OCCUPANCY_COEFFICIENT \<ge> length (pointers s), HashMap_size s,
         map_option (\<lambda>s'. (length (pointers s'), HashMap_size s', occupancy s'))
           (check_size True s)))
     = Some (True, 2, Some (16, 2, 0))"
  by code_simp

subsection \<open>Clearing and the tombstones it leaves\<close>

text \<open>
  C7. After \<^verbatim>\<open>clear()\<close> every slot is claimed to be empty. \<^verbatim>\<open>clear\<close> walks from the home slot of
  each live record only: after \<^verbatim>\<open>insert(0), erase(0)\<close> there is no live record, no walk, and
  slot 0 stays a tombstone, with \<open>occupancy\<close> reset to 0.
\<close>

theorem clear_leaves_tombstone:
  "hm_observe 0 [Insert 0 10, Erase 0, Clear] (\<lambda>k. k)
     (\<lambda>s :: (nat, nat) HashMap. (states s ! 0, HashMap_size s, occupancy s))
     = Some (STATE_ERASED, 0, 0)"
  by code_simp

lemma lookup_probe_cycle_aux:
  assumes "lookup_probe s key position = Some y"
  shows "\<not> (all_pass s key \<and> position < length (pointers s))"
proof (rule lookup_probe.raw_induct [rotated 1, OF assms])
  fix f and s' :: "('a, 'b) HashMap" and key' position' y'
  assume IH: "\<And>s key position y. f s key position = Some y \<Longrightarrow>
                \<not> (all_pass s key \<and> position < length (pointers s))"
    and step: "(if states s' ! position' = STATE_ERASED then
        f s' key' (next_position (length (pointers s')) position')
      else if states s' ! position' = STATE_FILLED then
        (case deref (values_list s') (pointers s' ! position') of
           None \<Rightarrow> Some (Inl InvalidIterator)
         | Some kv \<Rightarrow>
             if \<not> (fst kv = key') then
               f s' key' (next_position (length (pointers s')) position')
             else Some (Inr position'))
      else Some (Inr position')) = Some y'"
  show "\<not> (all_pass s' key' \<and> position' < length (pointers s'))"
  proof
    assume a: "all_pass s' key' \<and> position' < length (pointers s')"
    then have p: "passes s' key' position'"
      by (simp add: all_pass_def list_all_iff)
    from a have nx: "next_position (length (pointers s')) position' < length (pointers s')"
      by (auto simp: next_position_def)
    from p step have "f s' key' (next_position (length (pointers s')) position') = Some y'"
      by (auto simp: passes_def split: option.splits if_splits)
    with IH a nx show False by blast
  qed
qed

text \<open>
  Where every slot is a tombstone or a filled slot of another key, the lookup loop goes
  round the table for ever.
\<close>

lemma lookup_probe_cycle:
  "all_pass s key \<Longrightarrow> position < length (pointers s) \<Longrightarrow> lookup_probe s key position = None"
  using lookup_probe_cycle_aux [of s key position] by (cases "lookup_probe s key position") auto

lemma tombstone_run_state:
  "hm_observe 0 tombstone_run (\<lambda>k. k)
     (\<lambda>s. all_pass s 0 \<and> length (pointers s) = 8 \<and> hash s 0 = 0) = Some True"
  unfolding tombstone_run_def by code_simp

text \<open>
  C8. \<^verbatim>\<open>at(k)\<close> is claimed to fail with \<open>KeyNotFound\<close> when \<open>k\<close> is absent. Every call of
  \<open>tombstone_run\<close> returns; it leaves the records of the keys 6 and 7 in slots 6 and 7 and
  tombstones in slots 0 to 5, which \<^verbatim>\<open>clear\<close> did not reset and \<open>occupancy\<close> no longer counts.
  No slot is empty, and \<^verbatim>\<open>at(0)\<close> does not return.
\<close>

theorem at_of_absent_key_never_returns:
  "hm_observe 0 tombstone_run (\<lambda>k. k) HashMap_iterate = Some [(6, 16), (7, 17)] \<and>
   hm_observe 0 tombstone_run (\<lambda>k. k) (HashMap_at 0) = Some None"
proof
  show "hm_observe 0 tombstone_run (\<lambda>k. k) HashMap_iterate = Some [(6, 16), (7, 17)]"
    unfolding tombstone_run_def by code_simp
  show "hm_observe 0 tombstone_run (\<lambda>k. k) (HashMap_at 0) = Some None"
    using tombstone_run_state
    by (auto simp: hm_observe_def HashMap_at_def lookup_probe_cycle
        split: option.splits sum.splits)
qed

subsection \<open>Termination of the probe loops\<close>

text \<open>
  C9, as claimed: every probe loop ends when some slot is not filled. In the table that
  \<open>tombstone_run\<close> leaves slot 0 is a tombstone, and the loop of \<^verbatim>\<open>operator[]\<close>, \<^verbatim>\<open>at\<close>,
  \<^verbatim>\<open>erase\<close> and \<^verbatim>\<open>find\<close> for key 0, started at slot 0, never ends.
\<close>

theorem lookup_probe_cycles_over_tombstones:
  "hm_observe 0 tombstone_run (\<lambda>k. k) (\<lambda>s. (states s ! 0, lookup_probe s 0 0))
     = Some (STATE_ERASED, None)"
proof -
  have "hm_observe 0 tombstone_run (\<lambda>k. k) (\<lambda>s. states s ! 0) = Some STATE_ERASED"
    unfolding tombstone_run_def by code_simp
  with tombstone_run_state show ?thesis
    by (auto simp: hm_observe_def lookup_probe_cycle split: option.splits sum.splits)
qed

lemma probe_distance_next:
  "e < n \<Longrightarrow> position < n \<Longrightarrow> position \<noteq> e \<Longrightarrow>
     probe_distance n e (next_position n position) < probe_distance n e position"
  by (auto simp: probe_distance_def next_position_def)

lemma next_position_less: "position < n \<Longrightarrow> next_position n position < n"
  by (auto simp: next_position_def)

lemma insert_probe_returns:
  assumes "e < length (pointers s)" and "states s ! e \<noteq> STATE_FILLED"
  shows "position < length (pointers s) \<Longrightarrow> \<exists>r. insert_probe s key position = Some r"
proof (induction position rule: measure_induct_rule [where f = "probe_distance (length (pointers s)) e"])
  case (less position)
  show ?case
  proof (cases "states s ! position = STATE_FILLED")
    case False
    then show ?thesis by (subst insert_probe.simps) simp
  next
    case True
    with assms have ne: "position \<noteq> e" by auto
    from less.IH [OF probe_distance_next [OF assms(1) less.prems ne] next_position_less [OF less.prems]]
    obtain r where "insert_probe s key (next_position (length (pointers s)) position) = Some r" ..
    then show ?thesis
      by (subst insert_probe.simps) (simp split: option.splits)
  qed
qed

lemma lookup_probe_returns:
  assumes "e < length (pointers s)" and "states s ! e = STATE_EMPTY"
  shows "position < length (pointers s) \<Longrightarrow> \<exists>r. lookup_probe s key position = Some r"
proof (induction position rule: measure_induct_rule [where f = "probe_distance (length (pointers s)) e"])
  case (less position)
  show ?case
  proof (cases "states s ! position = STATE_EMPTY")
    case True
    then show ?thesis by (subst lookup_probe.simps) simp
  next
    case False
    with assms have ne: "position \<noteq> e" by auto
    from less.IH [OF probe_distance_next [OF assms(1) less.prems ne] next_position_less [OF less.prems]]
    obtain r where "lookup_probe s key (next_position (length (pointers s)) position) = Some r" ..
    then show ?thesis
      by (subst lookup_probe.simps) (simp split: option.splits)
  qed
qed

text \<open>
  C9, as the code has it: started inside the table, the loop of \<^verbatim>\<open>insert\<close> ends when some
  slot \<open>e\<close> is not filled, and the loop of \<^verbatim>\<open>operator[]\<close>, \<^verbatim>\<open>at\<close>, \<^verbatim>\<open>erase\<close> and \<^verbatim>\<open>find\<close> ends
  when some slot \<open>e\<close> is empty.
\<close>

theorem probe_loops_return:
  "position < length (pointers s) \<Longrightarrow> e < length (pointers s) \<Longrightarrow>
     (states s ! e \<noteq> STATE_FILLED \<longrightarrow> (\<exists>r. insert_probe s key position = Some r)) \<and>
     (states s ! e = STATE_EMPTY \<longrightarrow> (\<exists>r. lookup_probe s key position = Some r))"
  using insert_probe_returns [of e s position key] lookup_probe_returns [of e s position key]
  by blast

theorem probe_loops_return_witness:
  "(\<exists>r. insert_probe three_slots 8 0 = Some r) \<and> (\<exists>r. lookup_probe three_slots 8 0 = Some r)"
proof -
  have "(\<exists>r. insert_probe three_slots 8 0 = Some r)"
    using probe_loops_return [of 0 three_slots 1 8] by (simp add: three_slots_def)
  moreover have "(\<exists>r. lookup_probe three_slots 8 0 = Some r)"
    using probe_loops_return [of 0 three_slots 3 8] by (simp add: three_slots_def)
  ultimately show ?thesis ..
qed

subsection \<open>The table without clear\<close>

lemma walk_mono: "walk P n a b \<Longrightarrow> (\<And>q. P q \<Longrightarrow> Q q) \<Longrightarrow> walk Q n a b"
  by (induction rule: walk.induct) (auto intro: walk.intros)

lemma walk_snoc: "walk P n a b \<Longrightarrow> P b \<Longrightarrow> walk P n a (next_position n b)"
  by (induction rule: walk.induct) (auto intro: walk.intros)

lemma filter_length_update:
  "p < length xs \<Longrightarrow>
     length (filter P (xs[p := x])) + (if P (xs ! p) then 1 else 0) =
     length (filter P xs) + (if P x then 1 else 0)"
proof (induction xs arbitrary: p)
  case Nil
  then show ?case by simp
next
  case (Cons y ys)
  then show ?case by (cases p) auto
qed

lemma nonempty_count_fill:
  "p < length sts \<Longrightarrow>
     nonempty_count (sts[p := STATE_FILLED]) =
       (if sts ! p = STATE_EMPTY then nonempty_count sts + 1 else nonempty_count sts)"
  using filter_length_update [of p sts "\<lambda>t. t \<noteq> STATE_EMPTY" STATE_FILLED]
  by (auto simp: nonempty_count_def)

lemma nonempty_count_erase:
  "p < length sts \<Longrightarrow> sts ! p = STATE_FILLED \<Longrightarrow>
     nonempty_count (sts[p := STATE_ERASED]) = nonempty_count sts"
  using filter_length_update [of p sts "\<lambda>t. t \<noteq> STATE_EMPTY" STATE_ERASED]
  by (auto simp: nonempty_count_def)

lemma nonempty_count_replicate [simp]: "nonempty_count (replicate n STATE_EMPTY) = 0"
  by (simp add: nonempty_count_def)

lemma empty_slot_exists:
  assumes "nonempty_count sts < length sts"
  shows "\<exists>e < length sts. sts ! e = STATE_EMPTY"
proof (rule ccontr)
  assume "\<not> ?thesis"
  then have "\<forall>t \<in> set sts. t \<noteq> STATE_EMPTY" by (auto simp: in_set_conv_nth)
  then have "filter (\<lambda>t. t \<noteq> STATE_EMPTY) sts = sts" by (simp add: filter_id_conv)
  with assms show False by (simp add: nonempty_count_def)
qed

lemma sizes_ok_empty_slot:
  assumes "sizes_ok s"
  shows "\<exists>e < length (pointers s). states s ! e = STATE_EMPTY"
proof -
  from assms have "4 * nonempty_count (states s) + 8 \<le> 4 * occupancy s + length (pointers s)"
    and "occupancy s * 4 \<le> length (pointers s)" and l: "length (states s) = length (pointers s)"
    by (simp_all add: sizes_ok_def size_inv_def)
  then have "nonempty_count (states s) < length (states s)" by linarith
  from empty_slot_exists [OF this] l show ?thesis by simp
qed

lemma list_erase_handles:
  "distinct (map fst vs) \<Longrightarrow> fst ` set (list_erase m vs) = fst ` set vs - {m}"
  by (induction vs) (auto simp: image_iff)

lemma list_erase_distinct: "distinct (map fst vs) \<Longrightarrow> distinct (map fst (list_erase m vs))"
  by (induction vs) (auto simp: list_erase_handles)

lemma list_erase_map_of_other: "m' \<noteq> m \<Longrightarrow> map_of (list_erase m vs) m' = map_of vs m'"
  by (induction vs) auto

lemma list_erase_map_of:
  assumes "distinct (map fst vs)"
  shows "map_of (list_erase m vs) m' = (if m' = m then None else map_of vs m')"
proof (cases "m' = m")
  case True
  from list_erase_handles [OF assms, of m] have "m \<notin> fst ` set (list_erase m vs)" by simp
  with True show ?thesis by (simp add: map_of_eq_None_iff)
next
  case False
  then show ?thesis by (simp add: list_erase_map_of_other)
qed

lemma list_erase_length:
  "m \<in> fst ` set vs \<Longrightarrow> length (list_erase m vs) + 1 = length vs"
  by (induction vs) auto

lemma refs_ok_derefs_ok: "refs_ok s \<Longrightarrow> derefs_ok s"
proof -
  assume r: "refs_ok s"
  show ?thesis
    unfolding derefs_ok_def
  proof (intro allI impI)
    fix p assume "p < length (pointers s)" "states s ! p = STATE_FILLED"
    with r obtain m where "m \<in> handles s" "pointers s ! p = At m"
      by (auto simp: refs_ok_def links_ok_def)
    then show "slot_key s p \<noteq> None"
      by (auto simp: slot_key_def deref_def handles_def map_of_eq_None_iff)
  qed
qed

lemma rehash_probe_result:
  assumes "e < n" and "sts ! e \<noteq> STATE_FILLED"
  shows "position < n \<Longrightarrow>
    \<exists>q. rehash_probe sts n position = Some q \<and> q < n \<and> sts ! q \<noteq> STATE_FILLED \<and>
        walk (\<lambda>p. sts ! p = STATE_FILLED) n position q"
proof (induction position rule: measure_induct_rule [where f = "probe_distance n e"])
  case (less position)
  show ?case
  proof (cases "sts ! position = STATE_FILLED")
    case False
    with less.prems show ?thesis
      by (subst rehash_probe.simps) (auto intro: walk.arrived)
  next
    case True
    with assms have ne: "position \<noteq> e" by auto
    from less.IH [OF probe_distance_next [OF assms(1) less.prems ne] next_position_less [OF less.prems]]
    obtain q where q: "rehash_probe sts n (next_position n position) = Some q" "q < n"
      "sts ! q \<noteq> STATE_FILLED" "walk (\<lambda>p. sts ! p = STATE_FILLED) n (next_position n position) q"
      by blast
    from True q(4) have "walk (\<lambda>p. sts ! p = STATE_FILLED) n position q" by (rule walk.step)
    with True q show ?thesis by (subst rehash_probe.simps) simp
  qed
qed

lemma insert_probe_result:
  assumes "e < length (pointers s)" and "states s ! e \<noteq> STATE_FILLED" and "derefs_ok s"
  shows "position < length (pointers s) \<Longrightarrow>
    (insert_probe s key position = Some (Inr None) \<and>
       (\<exists>q < length (pointers s). states s ! q = STATE_FILLED \<and> slot_key s q = Some key)) \<or>
    (\<exists>q < length (pointers s). insert_probe s key position = Some (Inr (Some q)) \<and>
       states s ! q \<noteq> STATE_FILLED \<and>
       walk (\<lambda>p. states s ! p = STATE_FILLED \<and> slot_key s p \<noteq> Some key) (length (pointers s))
         position q)"
proof (induction position rule: measure_induct_rule [where f = "probe_distance (length (pointers s)) e"])
  case (less position)
  let ?n = "length (pointers s)"
  let ?P = "\<lambda>p. states s ! p = STATE_FILLED \<and> slot_key s p \<noteq> Some key"
  show ?case
  proof (cases "states s ! position = STATE_FILLED")
    case False
    with less.prems show ?thesis
      by (subst (1 2) insert_probe.simps) (auto intro: walk.arrived)
  next
    case True
    with assms(3) less.prems obtain kv where
      kv: "deref (values_list s) (pointers s ! position) = Some kv"
      by (auto simp: derefs_ok_def slot_key_def)
    show ?thesis
    proof (cases "fst kv = key")
      case eq: True
      with True kv have "insert_probe s key position = Some (Inr None)"
        by (subst insert_probe.simps) simp
      moreover from eq True kv have "states s ! position = STATE_FILLED \<and> slot_key s position = Some key"
        by (simp add: slot_key_def)
      ultimately show ?thesis using less.prems by blast
    next
      case neq: False
      from True assms have ne: "position \<noteq> e" by auto
      from True kv neq have P: "?P position" by (simp add: slot_key_def)
      from neq True kv have unf: "insert_probe s key position =
          insert_probe s key (next_position ?n position)"
        by (subst insert_probe.simps) simp
      from less.IH [OF probe_distance_next [OF assms(1) less.prems ne] next_position_less [OF less.prems]]
      show ?thesis
      proof
        assume "insert_probe s key (next_position ?n position) = Some (Inr None) \<and>
          (\<exists>q < ?n. states s ! q = STATE_FILLED \<and> slot_key s q = Some key)"
        with unf show ?thesis by simp
      next
        assume "\<exists>q < ?n. insert_probe s key (next_position ?n position) = Some (Inr (Some q)) \<and>
          states s ! q \<noteq> STATE_FILLED \<and> walk ?P ?n (next_position ?n position) q"
        then obtain q where q: "q < ?n"
          "insert_probe s key (next_position ?n position) = Some (Inr (Some q))"
          "states s ! q \<noteq> STATE_FILLED" "walk ?P ?n (next_position ?n position) q" by blast
        from P q(4) have "walk ?P ?n position q" by (rule walk.step)
        with q unf show ?thesis by auto
      qed
    qed
  qed
qed

lemma lookup_probe_unfold_pass:
  "derefs_ok s \<Longrightarrow> p < length (pointers s) \<Longrightarrow> lookup_pass s key p \<Longrightarrow>
     lookup_probe s key p = lookup_probe s key (next_position (length (pointers s)) p)"
  by (subst lookup_probe.simps)
    (auto simp: lookup_pass_def derefs_ok_def slot_key_def split: option.splits)

lemma lookup_probe_unfold_stop:
  "derefs_ok s \<Longrightarrow> p < length (pointers s) \<Longrightarrow> \<not> lookup_pass s key p \<Longrightarrow>
     lookup_probe s key p = Some (Inr p) \<and>
     (states s ! p = STATE_EMPTY \<or> (states s ! p = STATE_FILLED \<and> slot_key s p = Some key))"
  by (subst lookup_probe.simps, cases "states s ! p")
    (auto simp: lookup_pass_def derefs_ok_def slot_key_def split: option.splits)

lemma lookup_probe_result:
  assumes "e < length (pointers s)" and "states s ! e = STATE_EMPTY" and "derefs_ok s"
  shows "position < length (pointers s) \<Longrightarrow>
    \<exists>q < length (pointers s). lookup_probe s key position = Some (Inr q) \<and>
      (states s ! q = STATE_EMPTY \<or> (states s ! q = STATE_FILLED \<and> slot_key s q = Some key)) \<and>
      walk (lookup_pass s key) (length (pointers s)) position q"
proof (induction position rule: measure_induct_rule [where f = "probe_distance (length (pointers s)) e"])
  case (less position)
  let ?n = "length (pointers s)"
  show ?case
  proof (cases "lookup_pass s key position")
    case False
    from lookup_probe_unfold_stop [OF assms(3) less.prems False] less.prems
    show ?thesis by (auto intro: walk.arrived)
  next
    case True
    with assms(2) have ne: "position \<noteq> e" by (auto simp: lookup_pass_def)
    from less.IH [OF probe_distance_next [OF assms(1) less.prems ne] next_position_less [OF less.prems]]
    obtain q where q: "q < ?n" "lookup_probe s key (next_position ?n position) = Some (Inr q)"
      "states s ! q = STATE_EMPTY \<or> (states s ! q = STATE_FILLED \<and> slot_key s q = Some key)"
      "walk (lookup_pass s key) ?n (next_position ?n position) q" by blast
    from True q(4) have "walk (lookup_pass s key) ?n position q" by (rule walk.step)
    with q lookup_probe_unfold_pass [OF assms(3) less.prems True] show ?thesis by auto
  qed
qed

lemma lookup_probe_finds:
  assumes "derefs_ok s"
  shows "walk (\<lambda>q. states s ! q \<noteq> STATE_EMPTY) (length (pointers s)) a p \<Longrightarrow>
     a < length (pointers s) \<Longrightarrow> states s ! p = STATE_FILLED \<Longrightarrow> slot_key s p = Some key \<Longrightarrow>
     \<exists>q < length (pointers s). lookup_probe s key a = Some (Inr q) \<and>
        states s ! q = STATE_FILLED \<and> slot_key s q = Some key"
proof (induction rule: walk.induct)
  case (arrived a)
  then have "\<not> lookup_pass s key a" by (simp add: lookup_pass_def)
  from lookup_probe_unfold_stop [OF assms arrived(1) this] arrived show ?case by auto
next
  case (step a b)
  show ?case
  proof (cases "lookup_pass s key a")
    case True
    from step.IH [OF next_position_less [OF step.prems(1)] step.prems(2,3)]
      lookup_probe_unfold_pass [OF assms step.prems(1) True]
    show ?thesis by simp
  next
    case False
    from lookup_probe_unfold_stop [OF assms step.prems(1) False] step.hyps(1) step.prems(1)
    show ?thesis by auto
  qed
qed

lemma refs_ok_links: "refs_ok s \<longleftrightarrow> links_ok s \<and> (\<forall>m \<in> handles s. m < next_node s)"
  by (simp add: refs_ok_def)

lemma links_ok_derefs_ok: "links_ok s \<Longrightarrow> derefs_ok s"
  unfolding derefs_ok_def
proof (intro allI impI)
  fix p assume l: "links_ok s" and "p < length (pointers s)" "states s ! p = STATE_FILLED"
  then obtain m where "m \<in> handles s" "pointers s ! p = At m"
    by (auto simp: links_ok_def)
  then show "slot_key s p \<noteq> None"
    by (auto simp: slot_key_def deref_def handles_def map_of_eq_None_iff)
qed

lemma handles_place [simp]: "handles (place s q m kv) = insert m (handles s)"
  by (auto simp: handles_def place_def)

lemma place_fields [simp]:
  "length (pointers (place s q m kv)) = length (pointers s)"
  "length (states (place s q m kv)) = length (states s)"
  "hash (place s q m kv) = hash s"
  "values_list (place s q m kv) = values_list s @ [(m, kv)]"
  by (simp_all add: place_def)

lemma place_states:
  "q < length (states s) \<Longrightarrow>
     states (place s q m kv) ! p = (if p = q then STATE_FILLED else states s ! p)"
  by (simp add: place_def nth_list_update)

lemma place_pointers:
  "q < length (pointers s) \<Longrightarrow>
     pointers (place s q m kv) ! p = (if p = q then At m else pointers s ! p)"
  by (simp add: place_def nth_list_update)

lemma slot_key_place:
  assumes "links_ok s" and "q < length (pointers s)" and "length (states s) = length (pointers s)"
    and "states s ! q \<noteq> STATE_FILLED" and "m \<notin> handles s"
    and "p < length (pointers s)" and "states (place s q m kv) ! p = STATE_FILLED"
  shows "slot_key (place s q m kv) p = (if p = q then Some (fst kv) else slot_key s p)"
proof (cases "p = q")
  case True
  from assms(5) have "map_of (values_list s) m = None"
    by (simp add: handles_def map_of_eq_None_iff)
  with True assms(2) show ?thesis
    by (simp add: slot_key_def place_pointers deref_def map_add_def)
next
  case False
  with assms(3,2,7) have f: "states s ! p = STATE_FILLED" by (simp add: place_states)
  with assms(1,6) obtain m' where m': "m' \<in> handles s" "pointers s ! p = At m'"
    by (auto simp: links_ok_def)
  then obtain kv' where "map_of (values_list s) m' = Some kv'"
    by (cases "map_of (values_list s) m'") (auto simp: handles_def map_of_eq_None_iff)
  with False assms(2) m' show ?thesis
    by (simp add: slot_key_def place_pointers deref_def map_add_def)
qed

lemma place_links_ok:
  assumes "links_ok s" and "q < length (pointers s)" and "length (states s) = length (pointers s)"
    and "states s ! q \<noteq> STATE_FILLED" and "m \<notin> handles s"
  shows "links_ok (place s q m kv)"
  unfolding links_ok_def
proof (intro conjI allI impI ballI)
  from assms(1,5) show "distinct (map fst (values_list (place s q m kv)))"
    by (auto simp: links_ok_def handles_def)
next
  fix p assume p: "p < length (pointers (place s q m kv))"
    and f: "states (place s q m kv) ! p = STATE_FILLED"
  show "\<exists>m' \<in> handles (place s q m kv). pointers (place s q m kv) ! p = At m'"
  proof (cases "p = q")
    case True
    with assms(2) show ?thesis by (simp add: place_pointers)
  next
    case False
    with f assms(2,3) have "states s ! p = STATE_FILLED" by (simp add: place_states)
    with assms(1) p obtain m' where "m' \<in> handles s" "pointers s ! p = At m'"
      by (auto simp: links_ok_def)
    with False assms(2) show ?thesis by (auto simp: place_pointers)
  qed
next
  fix m' assume "m' \<in> handles (place s q m kv)"
  then consider "m' = m" | "m' \<in> handles s" by auto
  then show "\<exists>p < length (pointers (place s q m kv)).
      states (place s q m kv) ! p = STATE_FILLED \<and> pointers (place s q m kv) ! p = At m'"
  proof cases
    case 1
    with assms(2,3) show ?thesis
      by (intro exI [of _ q]) (simp add: place_states place_pointers)
  next
    case 2
    with assms(1) obtain p where p: "p < length (pointers s)" "states s ! p = STATE_FILLED"
      "pointers s ! p = At m'" by (auto simp: links_ok_def)
    with assms(4) have "p \<noteq> q" by auto
    with p assms(2,3) show ?thesis
      by (intro exI [of _ p]) (simp add: place_states place_pointers)
  qed
next
  fix p p' assume p: "p < length (pointers (place s q m kv))"
    and p': "p' < length (pointers (place s q m kv))"
    and f: "states (place s q m kv) ! p = STATE_FILLED"
    and f': "states (place s q m kv) ! p' = STATE_FILLED"
    and e: "pointers (place s q m kv) ! p = pointers (place s q m kv) ! p'"
  have other: "pointers s ! x \<noteq> At m" if "x < length (pointers s)" "states s ! x = STATE_FILLED" for x
  proof -
    from assms(1) that obtain m' where "m' \<in> handles s" "pointers s ! x = At m'"
      by (auto simp: links_ok_def)
    with assms(5) show ?thesis by auto
  qed
  show "p = p'"
  proof (cases "p = q")
    case pq: True
    show ?thesis
    proof (cases "p' = q")
      case True
      with pq show ?thesis by simp
    next
      case False
      with f' assms(2,3) have "states s ! p' = STATE_FILLED" by (simp add: place_states)
      from other [OF _ this] p' have "pointers s ! p' \<noteq> At m" by simp
      with e pq False assms(2) show ?thesis by (simp add: place_pointers)
    qed
  next
    case npq: False
    with f assms(2,3) have fp: "states s ! p = STATE_FILLED" by (simp add: place_states)
    show ?thesis
    proof (cases "p' = q")
      case True
      from other [OF _ fp] p have "pointers s ! p \<noteq> At m" by simp
      with e npq True assms(2) show ?thesis by (simp add: place_pointers)
    next
      case False
      with f' assms(2,3) have "states s ! p' = STATE_FILLED" by (simp add: place_states)
      with fp e npq False assms(1,2) p p' show ?thesis
        by (simp add: place_pointers links_ok_def)
    qed
  qed
qed

lemma place_chains_ok:
  assumes "links_ok s" and "chains_ok s"
    and "q < length (pointers s)" and "length (states s) = length (pointers s)"
    and "states s ! q \<noteq> STATE_FILLED" and "m \<notin> handles s"
    and "walk (\<lambda>p. states s ! p \<noteq> STATE_EMPTY) (length (pointers s))
           (hash s (fst kv) mod length (pointers s)) q"
  shows "chains_ok (place s q m kv)"
  unfolding chains_ok_def
proof (intro allI impI)
  fix p k assume p: "p < length (pointers (place s q m kv))"
    and f: "states (place s q m kv) ! p = STATE_FILLED"
    and k: "slot_key (place s q m kv) p = Some k"
  have mono: "states s ! x \<noteq> STATE_EMPTY \<Longrightarrow> states (place s q m kv) ! x \<noteq> STATE_EMPTY" for x
    using assms(3,4) by (simp add: place_states)
  from p have p': "p < length (pointers s)" by simp
  from slot_key_place [OF assms(1,3,4,5,6) p' f] k
  have sk: "(if p = q then Some (fst kv) else slot_key s p) = Some k" by simp
  have "walk (\<lambda>x. states s ! x \<noteq> STATE_EMPTY) (length (pointers s))
          (hash s k mod length (pointers s)) p"
  proof (cases "p = q")
    case True
    with sk assms(7) show ?thesis by simp
  next
    case False
    with f assms(3,4) have "states s ! p = STATE_FILLED" by (simp add: place_states)
    with False sk assms(2) p' show ?thesis by (simp add: chains_ok_def)
  qed
  from walk_mono [OF this mono]
  show "walk (\<lambda>x. states (place s q m kv) ! x \<noteq> STATE_EMPTY) (length (pointers (place s q m kv)))
          (hash (place s q m kv) k mod length (pointers (place s q m kv))) p"
    by simp
qed

lemma links_card:
  assumes "links_ok s" and "length (states s) = length (pointers s)"
  shows "length (values_list s) \<le> nonempty_count (states s)"
proof -
  let ?F = "{p. p < length (states s) \<and> states s ! p = STATE_FILLED}"
  let ?g = "\<lambda>p. case pointers s ! p of At m \<Rightarrow> m | _ \<Rightarrow> 0"
  have "handles s \<subseteq> ?g ` ?F"
  proof
    fix m assume "m \<in> handles s"
    with assms obtain p where "p < length (states s)" "states s ! p = STATE_FILLED"
      "pointers s ! p = At m" by (auto simp: links_ok_def)
    then show "m \<in> ?g ` ?F" by (force simp: image_iff)
  qed
  then have "card (handles s) \<le> card (?g ` ?F)" by (intro card_mono) auto
  also have "\<dots> \<le> card ?F" by (intro card_image_le) auto
  also have "\<dots> \<le> card {p. p < length (states s) \<and> states s ! p \<noteq> STATE_EMPTY}"
    by (intro card_mono) auto
  also have "\<dots> = nonempty_count (states s)"
    by (simp add: nonempty_count_def length_filter_conv_card)
  finally have "card (handles s) \<le> nonempty_count (states s)" .
  moreover from assms(1) have "card (handles s) = length (values_list s)"
    using distinct_card [of "map fst (values_list s)"] by (simp add: links_ok_def handles_def)
  ultimately show ?thesis by simp
qed

lemma rehash_loop_places:
  assumes "links_ok (s0\<lparr>pointers := np, states := sts, values_list := dn\<rparr>)"
    and "chains_ok (s0\<lparr>pointers := np, states := sts, values_list := dn\<rparr>)"
    and "length np = N" and "length sts = N" and "nonempty_count sts \<le> length dn"
    and "distinct (map fst (dn @ rs))" and "length (dn @ rs) < N"
  shows "\<exists>np' sts' occ'. rehash_loop (hash s0) rs (np, sts, occ) = Some (np', sts', occ') \<and>
     links_ok (s0\<lparr>pointers := np', states := sts', values_list := dn @ rs\<rparr>) \<and>
     chains_ok (s0\<lparr>pointers := np', states := sts', values_list := dn @ rs\<rparr>) \<and>
     length np' = N \<and> length sts' = N \<and> nonempty_count sts' \<le> length (dn @ rs) \<and>
     occ' = (if rs = [] then occ else 0) \<and>
     (STATE_ERASED \<notin> set sts \<longrightarrow> STATE_ERASED \<notin> set sts')"
  using assms
proof (induction rs arbitrary: np sts occ dn)
  case Nil
  then show ?case by simp
next
  case (Cons r rs)
  let ?t = "s0\<lparr>pointers := np, states := sts, values_list := dn\<rparr>"
  let ?k = "fst (snd r)"
  from Cons.prems(5,7) have "nonempty_count sts < length sts" using Cons.prems(4) by simp
  from empty_slot_exists [OF this] Cons.prems(4) obtain e where
    e: "e < N" "sts ! e \<noteq> STATE_FILLED" by auto
  from e have N: "0 < N" by simp
  then have pos: "hash s0 ?k mod N < N" by simp
  from rehash_probe_result [OF e pos] obtain q where
    q: "rehash_probe sts N (hash s0 ?k mod N) = Some q" "q < N" "sts ! q \<noteq> STATE_FILLED"
    "walk (\<lambda>p. sts ! p = STATE_FILLED) N (hash s0 ?k mod N) q" by blast
  from q(4) have w: "walk (\<lambda>p. sts ! p \<noteq> STATE_EMPTY) N (hash s0 ?k mod N) q"
    by (rule walk_mono) simp
  from Cons.prems(6) have fresh: "fst r \<notin> handles ?t" by (auto simp: handles_def)
  have pl: "place ?t q (fst r) (snd r) =
      s0\<lparr>pointers := np[q := At (fst r)], states := sts[q := STATE_FILLED], values_list := dn @ [r]\<rparr>"
    by (simp add: place_def)
  have l1: "links_ok (place ?t q (fst r) (snd r))"
    using Cons.prems(1,3,4) q(2,3) fresh by (intro place_links_ok) simp_all
  have c1: "chains_ok (place ?t q (fst r) (snd r))"
    using Cons.prems(1,2,3,4) q(2,3) fresh w by (intro place_chains_ok) simp_all
  from nonempty_count_fill [of q sts] q(2) Cons.prems(4,5)
  have cnt: "nonempty_count (sts[q := STATE_FILLED]) \<le> length (dn @ [r])" by (simp split: if_splits)
  from Cons.prems(6) have d: "distinct (map fst ((dn @ [r]) @ rs))" by simp
  from Cons.prems(7) have len: "length ((dn @ [r]) @ rs) < N" by simp
  from Cons.IH [OF l1 [unfolded pl] c1 [unfolded pl] _ _ cnt d len, of 0] Cons.prems(3,4)
  obtain np' sts' occ' where r:
    "rehash_loop (hash s0) rs (np[q := At (fst r)], sts[q := STATE_FILLED], 0) = Some (np', sts', occ')"
    "links_ok (s0\<lparr>pointers := np', states := sts', values_list := (dn @ [r]) @ rs\<rparr>)"
    "chains_ok (s0\<lparr>pointers := np', states := sts', values_list := (dn @ [r]) @ rs\<rparr>)"
    "length np' = N" "length sts' = N" "nonempty_count sts' \<le> length ((dn @ [r]) @ rs)"
    "STATE_ERASED \<notin> set (sts[q := STATE_FILLED]) \<longrightarrow> STATE_ERASED \<notin> set sts'"
    by auto
  have er: "STATE_ERASED \<notin> set sts \<Longrightarrow> STATE_ERASED \<notin> set (sts[q := STATE_FILLED])"
    by (auto dest!: subsetD [OF set_update_subset_insert])
  from q(1) r(1) Cons.prems(3)
  have "rehash_loop (hash s0) (r # rs) (np, sts, occ) = Some (np', sts', 0)"
  proof -
    from rehash_loop_shape [OF r(1)] have "occ' = 0" by (simp split: if_splits)
    with q(1) r(1) Cons.prems(3) show ?thesis by simp
  qed
  with r er show ?case by simp
qed

lemma links_ok_fields [simp]:
  "links_ok (s\<lparr>occupancy := x\<rparr>) = links_ok s"
  "links_ok (s\<lparr>next_node := y\<rparr>) = links_ok s"
  by (simp_all add: links_ok_def handles_def)

lemma chains_ok_fields [simp]:
  "chains_ok (s\<lparr>occupancy := x\<rparr>) = chains_ok s"
  "chains_ok (s\<lparr>next_node := y\<rparr>) = chains_ok s"
  by (simp_all add: chains_ok_def slot_key_def)

lemma check_size_inv:
  assumes "hm_inv s"
  shows "\<exists>s'. check_size True s = Some s' \<and> hm_inv s' \<and>
     occupancy s' * 4 < length (pointers s') \<and> values_list s' = values_list s \<and>
     hash s' = hash s \<and> next_node s' = next_node s \<and>
     (STATE_ERASED \<notin> set (states s) \<longrightarrow> STATE_ERASED \<notin> set (states s'))"
proof (cases "occupancy s * OCCUPANCY_COEFFICIENT \<ge> length (pointers s)")
  case False
  with assms show ?thesis
    by (auto simp: check_size_def OCCUPANCY_COEFFICIENT_def)
next
  case True
  let ?n = "length (pointers s)"
  from assms have sz: "sizes_ok s" and rf: "refs_ok s" and ch: "chains_ok s"
    by (simp_all add: hm_inv_def)
  from sz have ls: "length (states s) = ?n" and si: "size_inv s"
    and cnt: "4 * nonempty_count (states s) + 8 \<le> 4 * occupancy s + ?n"
    by (simp_all add: sizes_ok_def)
  from si have occ: "occupancy s * 4 \<le> ?n" and n0: "0 < ?n" by (simp_all add: size_inv_def)
  from rf have lk: "links_ok s" and fr: "\<forall>m \<in> handles s. m < next_node s"
    by (simp_all add: refs_ok_links)
  from links_card [OF lk ls] have lv: "length (values_list s) \<le> nonempty_count (states s)" .
  with cnt occ have lv2: "length ([] @ values_list s) < ?n * 2" by simp
  from lk have d: "distinct (map fst ([] @ values_list s))" by (simp add: links_ok_def)
  have l0: "links_ok (s\<lparr>pointers := replicate (?n * 2) Singular,
      states := replicate (?n * 2) STATE_EMPTY, values_list := []\<rparr>)"
    by (simp add: links_ok_def handles_def)
  have c0: "chains_ok (s\<lparr>pointers := replicate (?n * 2) Singular,
      states := replicate (?n * 2) STATE_EMPTY, values_list := []\<rparr>)"
    by (simp add: chains_ok_def)
  from rehash_loop_places [OF l0 c0 _ _ _ d lv2, of "occupancy s"]
  obtain np sts occ' where r:
    "rehash_loop (hash s) (values_list s) (replicate (?n * 2) Singular,
        replicate (?n * 2) STATE_EMPTY, occupancy s) = Some (np, sts, occ')"
    "links_ok (s\<lparr>pointers := np, states := sts, values_list := values_list s\<rparr>)"
    "chains_ok (s\<lparr>pointers := np, states := sts, values_list := values_list s\<rparr>)"
    "length np = ?n * 2" "length sts = ?n * 2" "nonempty_count sts \<le> length (values_list s)"
    "STATE_ERASED \<notin> set sts"
    by auto
  let ?s' = "s\<lparr>pointers := np, states := sts, occupancy := occ'\<rparr>"
  from True r(1) have cs: "check_size True s = Some ?s'" by (simp add: check_size_def)
  from check_size_bound [OF si cs] have b: "0 < length (pointers ?s')" "4 dvd length (pointers ?s')"
    "occupancy ?s' * 4 < length (pointers ?s')" by auto
  have eq: "s\<lparr>pointers := np, states := sts, values_list := values_list s\<rparr> =
      s\<lparr>pointers := np, states := sts\<rparr>" by simp
  from r(2,3) have lk': "links_ok ?s'" and ch': "chains_ok ?s'"
    unfolding eq by (simp_all add: links_ok_def chains_ok_def handles_def slot_key_def)
  from fr have "\<forall>m \<in> handles ?s'. m < next_node ?s'" by (simp add: handles_def)
  with lk' have rf': "refs_ok ?s'" by (simp add: refs_ok_links)
  from r(6) lv cnt occ have "4 * nonempty_count sts + 8 \<le> 4 * occ' + ?n * 2" by linarith
  with b r(4,5) have "sizes_ok ?s'" by (simp add: sizes_ok_def size_inv_def)
  with rf' ch' have "hm_inv ?s'" by (simp add: hm_inv_def)
  with cs b(3) r(7) show ?thesis by simp
qed

lemma append_record_place:
  "append_record s q kv =
     (place s q (next_node s) kv)
       \<lparr>occupancy := (if states s ! q = STATE_EMPTY then occupancy s + 1 else occupancy s),
        next_node := next_node s + 1\<rparr>"
  by (simp add: append_record_def place_def)

lemma append_record_inv:
  assumes "hm_inv s" and "occupancy s * 4 < length (pointers s)" and "q < length (pointers s)"
    and "states s ! q \<noteq> STATE_FILLED"
    and "walk (\<lambda>p. states s ! p \<noteq> STATE_EMPTY) (length (pointers s))
           (hash s (fst kv) mod length (pointers s)) q"
  shows "hm_inv (append_record s q kv)"
proof -
  let ?n = "length (pointers s)"
  from assms(1) have sz: "sizes_ok s" and rf: "refs_ok s" and ch: "chains_ok s"
    by (simp_all add: hm_inv_def)
  from sz have ls: "length (states s) = ?n" and si: "size_inv s"
    and cnt: "4 * nonempty_count (states s) + 8 \<le> 4 * occupancy s + ?n"
    by (simp_all add: sizes_ok_def)
  from rf have lk: "links_ok s" and fr: "\<forall>m \<in> handles s. m < next_node s"
    by (simp_all add: refs_ok_links)
  from fr have nf: "next_node s \<notin> handles s" by auto
  from si have "0 < ?n" "4 dvd ?n" by (simp_all add: size_inv_def)
  from append_record_size_inv [OF this assms(2)] have si': "size_inv (append_record s q kv)" .
  from nonempty_count_fill [of q "states s"] assms(3) ls cnt
  have "4 * nonempty_count (states (append_record s q kv)) + 8
      \<le> 4 * occupancy (append_record s q kv) + length (pointers (append_record s q kv))"
    by (simp add: append_record_def)
  with si' ls have sz': "sizes_ok (append_record s q kv)"
    by (simp add: sizes_ok_def append_record_def)
  from place_links_ok [OF lk assms(3) ls assms(4) nf]
  have lk': "links_ok (append_record s q kv)" by (simp add: append_record_place)
  from fr have "\<forall>m \<in> handles (append_record s q kv). m < next_node (append_record s q kv)"
    by (auto simp: append_record_def handles_def)
  with lk' have rf': "refs_ok (append_record s q kv)" by (simp add: refs_ok_links)
  from place_chains_ok [OF lk ch assms(3) ls assms(4) nf assms(5)]
  have "chains_ok (append_record s q kv)" by (simp add: append_record_place)
  with sz' rf' show ?thesis by (simp add: hm_inv_def)
qed

lemma unlink_inv:
  assumes "hm_inv s" and "q < length (pointers s)" and "states s ! q = STATE_FILLED"
    and "pointers s ! q = At m"
  shows "hm_inv (unlink s q m)"
proof -
  let ?n = "length (pointers s)"
  let ?u = "unlink s q m"
  from assms(1) have sz: "sizes_ok s" and rf: "refs_ok s" and ch: "chains_ok s"
    by (simp_all add: hm_inv_def)
  from sz have ls: "length (states s) = ?n" and si: "size_inv s"
    and cnt: "4 * nonempty_count (states s) + 8 \<le> 4 * occupancy s + ?n"
    by (simp_all add: sizes_ok_def)
  from rf have lk: "links_ok s" and fr: "\<forall>m \<in> handles s. m < next_node s"
    by (simp_all add: refs_ok_links)
  from lk have d: "distinct (map fst (values_list s))" by (simp add: links_ok_def)
  have h': "handles ?u = handles s - {m}"
    using list_erase_handles [OF d, of m] by (simp add: handles_def unlink_def)
  have st: "states ?u ! p = (if p = q then STATE_ERASED else states s ! p)" for p
    using assms(2) ls by (simp add: unlink_def nth_list_update)
  have pt: "pointers ?u = pointers s" by (simp add: unlink_def)
  have other: "\<exists>m' \<in> handles s - {m}. pointers s ! p = At m'"
    if "p < ?n" "states s ! p = STATE_FILLED" "p \<noteq> q" for p
  proof -
    from lk that obtain m' where m': "m' \<in> handles s" "pointers s ! p = At m'"
      by (auto simp: links_ok_def)
    from lk that assms(2,3,4) m' have "m' \<noteq> m" by (auto simp: links_ok_def)
    with m' show ?thesis by auto
  qed
  have lk': "links_ok ?u"
    unfolding links_ok_def
  proof (intro conjI allI impI ballI)
    show "distinct (map fst (values_list ?u))"
      using list_erase_distinct [OF d] by (simp add: unlink_def)
  next
    fix p assume "p < length (pointers ?u)" "states ?u ! p = STATE_FILLED"
    then have "p < ?n" "states s ! p = STATE_FILLED" "p \<noteq> q"
      by (auto simp: st pt split: if_splits)
    from other [OF this] show "\<exists>m' \<in> handles ?u. pointers ?u ! p = At m'"
      by (simp add: h' pt)
  next
    fix m' assume "m' \<in> handles ?u"
    then have m': "m' \<in> handles s" "m' \<noteq> m" by (simp_all add: h')
    with lk obtain p where p: "p < ?n" "states s ! p = STATE_FILLED" "pointers s ! p = At m'"
      by (auto simp: links_ok_def)
    with m' assms(4) have "p \<noteq> q" by auto
    with p show "\<exists>p < length (pointers ?u). states ?u ! p = STATE_FILLED \<and> pointers ?u ! p = At m'"
      by (intro exI [of _ p]) (simp add: st pt)
  next
    fix p p' assume "p < length (pointers ?u)" "p' < length (pointers ?u)"
      "states ?u ! p = STATE_FILLED" "states ?u ! p' = STATE_FILLED"
      "pointers ?u ! p = pointers ?u ! p'"
    with lk show "p = p'"
      by (auto simp: st pt links_ok_def split: if_splits)
  qed
  have "next_node ?u = next_node s" by (simp add: unlink_def)
  with fr h' have "\<forall>m' \<in> handles ?u. m' < next_node ?u" by auto
  with lk' have rf': "refs_ok ?u" by (simp add: refs_ok_links)
  from nonempty_count_erase [of q "states s"] assms(2,3) ls si cnt
  have sz': "sizes_ok ?u" by (simp add: sizes_ok_def unlink_def size_inv_def)
  have ch': "chains_ok ?u"
    unfolding chains_ok_def
  proof (intro allI impI)
    fix p k assume p: "p < length (pointers ?u)" and f: "states ?u ! p = STATE_FILLED"
      and k: "slot_key ?u p = Some k"
    from p f have p': "p < ?n" "states s ! p = STATE_FILLED" "p \<noteq> q"
      by (auto simp: st pt split: if_splits)
    from other [OF this] obtain m' where m': "m' \<noteq> m" "pointers s ! p = At m'" by auto
    with k have "slot_key s p = Some k"
      by (simp add: slot_key_def deref_def unlink_def list_erase_map_of_other)
    with ch p' have "walk (\<lambda>x. states s ! x \<noteq> STATE_EMPTY) ?n (hash s k mod ?n) p"
      by (simp add: chains_ok_def)
    then have "walk (\<lambda>x. states ?u ! x \<noteq> STATE_EMPTY) ?n (hash s k mod ?n) p"
      by (rule walk_mono) (simp add: st)
    then show "walk (\<lambda>x. states ?u ! x \<noteq> STATE_EMPTY) (length (pointers ?u))
        (hash ?u k mod length (pointers ?u)) p"
      by (simp add: unlink_def)
  qed
  from sz' rf' ch' show ?thesis by (simp add: hm_inv_def)
qed

text \<open>Where a key of the record list sits in the table.\<close>

lemma key_slot:
  assumes "hm_inv s" and "key \<in> keys s"
  shows "\<exists>p < length (pointers s). states s ! p = STATE_FILLED \<and> slot_key s p = Some key \<and>
     walk (\<lambda>q. states s ! q \<noteq> STATE_EMPTY) (length (pointers s))
       (hash s key mod length (pointers s)) p"
proof -
  from assms(1) have lk: "links_ok s" and ch: "chains_ok s"
    by (simp_all add: hm_inv_def refs_ok_links)
  from assms(2) obtain m v where mv: "(m, key, v) \<in> set (values_list s)"
    by (auto simp: keys_def HashMap_iterate_def)
  then have "m \<in> handles s" by (force simp: handles_def)
  with lk obtain p where p: "p < length (pointers s)" "states s ! p = STATE_FILLED"
    "pointers s ! p = At m" by (auto simp: links_ok_def)
  from lk mv have "map_of (values_list s) m = Some (key, v)" by (simp add: links_ok_def)
  with p have "slot_key s p = Some key" by (simp add: slot_key_def deref_def)
  with p ch show ?thesis by (auto simp: chains_ok_def)
qed

lemma slot_key_in_keys:
  assumes "slot_key s p = Some key"
  shows "\<exists>kv. deref (values_list s) (pointers s ! p) = Some kv \<and> fst kv = key \<and>
     kv \<in> set (HashMap_iterate s) \<and> key \<in> keys s"
proof -
  from assms obtain kv where kv: "deref (values_list s) (pointers s ! p) = Some kv" "fst kv = key"
    by (auto simp: slot_key_def)
  then obtain m where "map_of (values_list s) m = Some kv"
    by (auto simp: deref_def split: list_iterator.splits)
  then have "(m, kv) \<in> set (values_list s)" by (rule map_of_SomeD)
  then have "kv \<in> set (HashMap_iterate s)" by (force simp: HashMap_iterate_def)
  with kv show ?thesis by (force simp: keys_def)
qed

lemma hm_inv_derefs_ok: "hm_inv s \<Longrightarrow> derefs_ok s"
  by (simp add: hm_inv_def refs_ok_derefs_ok)

lemma hm_inv_home: "hm_inv s \<Longrightarrow> hash s key mod length (pointers s) < length (pointers s)"
  by (simp add: hm_inv_def sizes_ok_def size_inv_def)

lemma lookup_present:
  assumes "hm_inv s" and "key \<in> keys s"
  shows "\<exists>q < length (pointers s).
     lookup_probe s key (hash s key mod length (pointers s)) = Some (Inr q) \<and>
     states s ! q = STATE_FILLED \<and> slot_key s q = Some key"
proof -
  from key_slot [OF assms] obtain p where p: "states s ! p = STATE_FILLED"
    "slot_key s p = Some key"
    "walk (\<lambda>q. states s ! q \<noteq> STATE_EMPTY) (length (pointers s))
       (hash s key mod length (pointers s)) p" by blast
  from lookup_probe_finds [OF hm_inv_derefs_ok [OF assms(1)] p(3) hm_inv_home [OF assms(1)] p(1,2)]
  show ?thesis .
qed

lemma lookup_absent:
  assumes "hm_inv s" and "key \<notin> keys s"
  shows "\<exists>q < length (pointers s).
     lookup_probe s key (hash s key mod length (pointers s)) = Some (Inr q) \<and>
     states s ! q = STATE_EMPTY \<and>
     walk (\<lambda>p. states s ! p \<noteq> STATE_EMPTY) (length (pointers s))
       (hash s key mod length (pointers s)) q"
proof -
  from assms(1) have "sizes_ok s" by (simp add: hm_inv_def)
  from sizes_ok_empty_slot [OF this] obtain e where
    e: "e < length (pointers s)" "states s ! e = STATE_EMPTY" by blast
  from lookup_probe_result [OF e hm_inv_derefs_ok [OF assms(1)] hm_inv_home [OF assms(1)], of key]
  obtain q where q: "q < length (pointers s)"
    "lookup_probe s key (hash s key mod length (pointers s)) = Some (Inr q)"
    "states s ! q = STATE_EMPTY \<or> (states s ! q = STATE_FILLED \<and> slot_key s q = Some key)"
    "walk (lookup_pass s key) (length (pointers s)) (hash s key mod length (pointers s)) q"
    by blast
  from q(3) assms(2) slot_key_in_keys [of s q key] have "states s ! q = STATE_EMPTY" by auto
  moreover from q(4) have "walk (\<lambda>p. states s ! p \<noteq> STATE_EMPTY) (length (pointers s))
       (hash s key mod length (pointers s)) q"
    by (rule walk_mono) (auto simp: lookup_pass_def)
  ultimately show ?thesis using q(1,2) by blast
qed

lemma HashMap_at_present:
  assumes "hm_inv s" and "key \<in> keys s"
  shows "\<exists>v. HashMap_at key s = Some (Inr v) \<and> (key, v) \<in> set (HashMap_iterate s)"
proof -
  from lookup_present [OF assms] obtain q where
    q: "lookup_probe s key (hash s key mod length (pointers s)) = Some (Inr q)"
    "states s ! q = STATE_FILLED" "slot_key s q = Some key" by blast
  from slot_key_in_keys [OF q(3)] obtain kv where
    kv: "deref (values_list s) (pointers s ! q) = Some kv" "fst kv = key"
    "kv \<in> set (HashMap_iterate s)" by blast
  from kv(2,3) have "(key, snd kv) \<in> set (HashMap_iterate s)" by (cases kv) simp
  with q kv(1) show ?thesis by (simp add: HashMap_at_def)
qed

lemma HashMap_at_absent:
  assumes "hm_inv s" and "key \<notin> keys s"
  shows "HashMap_at key s = Some (Inl KeyNotFound)"
proof -
  from lookup_absent [OF assms] obtain q where
    "lookup_probe s key (hash s key mod length (pointers s)) = Some (Inr q)"
    "states s ! q = STATE_EMPTY" by blast
  then show ?thesis by (simp add: HashMap_at_def)
qed

lemma insert_probe_finds:
  assumes "derefs_ok s"
  shows "walk (\<lambda>q. states s ! q = STATE_FILLED) (length (pointers s)) a p \<Longrightarrow>
     a < length (pointers s) \<Longrightarrow> states s ! p = STATE_FILLED \<Longrightarrow> slot_key s p = Some key \<Longrightarrow>
     insert_probe s key a = Some (Inr None)"
proof (induction rule: walk.induct)
  case (arrived a)
  then show ?case
    by (subst insert_probe.simps) (auto simp: slot_key_def split: option.splits)
next
  case (step a b)
  from assms step.prems(1) step.hyps(1) obtain kv where
    kv: "deref (values_list s) (pointers s ! a) = Some kv"
    by (auto simp: derefs_ok_def slot_key_def)
  show ?case
  proof (cases "fst kv = key")
    case True
    with kv step.hyps(1) show ?thesis by (subst insert_probe.simps) simp
  next
    case False
    with kv step.hyps(1) have "insert_probe s key a =
        insert_probe s key (next_position (length (pointers s)) a)"
      by (subst insert_probe.simps) simp
    with step.IH [OF next_position_less [OF step.prems(1)] step.prems(2,3)] show ?thesis by simp
  qed
qed

lemma keys_unchanged: "values_list s' = values_list s \<Longrightarrow> keys s' = keys s"
  by (simp add: keys_def HashMap_iterate_def)

lemma HashMap_insert_inv:
  assumes "hm_inv s"
  shows "\<exists>s'. HashMap_insert True kv s = Some (Inr s') \<and> hm_inv s' \<and> hash s' = hash s \<and>
     (STATE_ERASED \<notin> set (states s) \<longrightarrow> STATE_ERASED \<notin> set (states s')) \<and>
     ((fst kv \<in> keys s \<and> HashMap_iterate s' = HashMap_iterate s) \<or>
      ((STATE_ERASED \<notin> set (states s) \<longrightarrow> fst kv \<notin> keys s) \<and>
       HashMap_iterate s' = HashMap_iterate s @ [kv]))"
proof -
  from check_size_inv [OF assms] obtain s1 where
    s1: "check_size True s = Some s1" "hm_inv s1" "occupancy s1 * 4 < length (pointers s1)"
    "values_list s1 = values_list s" "hash s1 = hash s" "next_node s1 = next_node s"
    "STATE_ERASED \<notin> set (states s) \<longrightarrow> STATE_ERASED \<notin> set (states s1)" by blast
  let ?n = "length (pointers s1)"
  let ?home = "hash s1 (fst kv) mod ?n"
  from s1(2) have sz: "sizes_ok s1" by (simp add: hm_inv_def)
  then have ls: "length (states s1) = ?n" by (simp add: sizes_ok_def)
  from sizes_ok_empty_slot [OF sz] obtain e where
    e: "e < ?n" "states s1 ! e \<noteq> STATE_FILLED" by auto
  note d = hm_inv_derefs_ok [OF s1(2)]
  from keys_unchanged [OF s1(4)] have k1: "keys s1 = keys s" .
  from s1(4) have it1: "HashMap_iterate s1 = HashMap_iterate s" by (simp add: HashMap_iterate_def)
  from insert_probe_result [OF e d hm_inv_home [OF s1(2)], of "fst kv"]
  show ?thesis
  proof
    assume "insert_probe s1 (fst kv) ?home = Some (Inr None) \<and>
       (\<exists>q < ?n. states s1 ! q = STATE_FILLED \<and> slot_key s1 q = Some (fst kv))"
    then obtain q where ip: "insert_probe s1 (fst kv) ?home = Some (Inr None)"
      and "slot_key s1 q = Some (fst kv)" by blast
    from slot_key_in_keys [OF this(2)] k1 have "fst kv \<in> keys s" by auto
    with ip s1 it1 show ?thesis by (simp add: HashMap_insert_def)
  next
    assume "\<exists>q < ?n. insert_probe s1 (fst kv) ?home = Some (Inr (Some q)) \<and>
       states s1 ! q \<noteq> STATE_FILLED \<and>
       walk (\<lambda>p. states s1 ! p = STATE_FILLED \<and> slot_key s1 p \<noteq> Some (fst kv)) ?n ?home q"
    then obtain q where q: "q < ?n" "insert_probe s1 (fst kv) ?home = Some (Inr (Some q))"
      "states s1 ! q \<noteq> STATE_FILLED"
      "walk (\<lambda>p. states s1 ! p = STATE_FILLED \<and> slot_key s1 p \<noteq> Some (fst kv)) ?n ?home q"
      by blast
    from q(4) have w: "walk (\<lambda>p. states s1 ! p \<noteq> STATE_EMPTY) ?n ?home q"
      by (rule walk_mono) simp
    let ?s' = "append_record s1 q kv"
    from append_record_inv [OF s1(2,3) q(1,3) w] have inv': "hm_inv ?s'" .
    from q(2) s1(1) have res: "HashMap_insert True kv s = Some (Inr ?s')"
      by (simp add: HashMap_insert_def)
    have it': "HashMap_iterate ?s' = HashMap_iterate s @ [kv]"
      by (simp add: append_record_def HashMap_iterate_def s1(4))
    have er: "STATE_ERASED \<notin> set (states s1) \<Longrightarrow> STATE_ERASED \<notin> set (states ?s')"
      by (auto simp: append_record_def dest!: subsetD [OF set_update_subset_insert])
    have fresh: "fst kv \<notin> keys s" if ne: "STATE_ERASED \<notin> set (states s)"
    proof
      assume "fst kv \<in> keys s"
      with k1 have "fst kv \<in> keys s1" by simp
      from key_slot [OF s1(2) this] obtain p where p: "states s1 ! p = STATE_FILLED"
        "slot_key s1 p = Some (fst kv)"
        "walk (\<lambda>q. states s1 ! q \<noteq> STATE_EMPTY) ?n ?home p" by blast
      from ne s1(7) have ne1: "STATE_ERASED \<notin> set (states s1)" by simp
      have full: "states s1 ! x = STATE_FILLED"
        if "states s1 ! x \<noteq> STATE_EMPTY" "x < ?n" for x
        using that ne1 ls by (cases "states s1 ! x") (auto simp: in_set_conv_nth)
      have "walk (\<lambda>q. states s1 ! q = STATE_FILLED) ?n a p"
        if "walk (\<lambda>q. states s1 ! q \<noteq> STATE_EMPTY) ?n a p" "a < ?n" for a
        using that
      proof (induction rule: walk.induct)
        case (arrived a)
        show ?case by (rule walk.arrived)
      next
        case (step a b)
        from full [OF step.hyps(1) step.prems] step.IH [OF next_position_less [OF step.prems]]
        show ?case by (rule walk.step)
      qed
      from this [OF p(3) hm_inv_home [OF s1(2)]]
      have "walk (\<lambda>q. states s1 ! q = STATE_FILLED) ?n ?home p" .
      from insert_probe_finds [OF d this hm_inv_home [OF s1(2)] p(1,2)] q(2)
      show False by simp
    qed
    from res inv' it' er fresh s1(5,7) show ?thesis
      by (auto simp: append_record_def)
  qed
qed

lemma HashMap_subscript_inv:
  assumes "hm_inv s"
  shows "\<exists>s' v. HashMap_subscript True dflt key s = Some (Inr (s', v)) \<and> hm_inv s' \<and>
     hash s' = hash s \<and>
     (STATE_ERASED \<notin> set (states s) \<longrightarrow> STATE_ERASED \<notin> set (states s')) \<and>
     ((key \<in> keys s \<and> HashMap_iterate s' = HashMap_iterate s \<and>
         (key, v) \<in> set (HashMap_iterate s)) \<or>
      (key \<notin> keys s \<and> HashMap_iterate s' = HashMap_iterate s @ [(key, dflt)] \<and> v = dflt))"
proof -
  from check_size_inv [OF assms] obtain s1 where
    s1: "check_size True s = Some s1" "hm_inv s1" "occupancy s1 * 4 < length (pointers s1)"
    "values_list s1 = values_list s" "hash s1 = hash s" "next_node s1 = next_node s"
    "STATE_ERASED \<notin> set (states s) \<longrightarrow> STATE_ERASED \<notin> set (states s1)" by blast
  let ?n = "length (pointers s1)"
  let ?home = "hash s1 key mod ?n"
  from keys_unchanged [OF s1(4)] have k1: "keys s1 = keys s" .
  from s1(4) have it1: "HashMap_iterate s1 = HashMap_iterate s" by (simp add: HashMap_iterate_def)
  show ?thesis
  proof (cases "key \<in> keys s")
    case True
    with k1 have "key \<in> keys s1" by simp
    from lookup_present [OF s1(2) this] obtain q where
      q: "lookup_probe s1 key ?home = Some (Inr q)"
      "states s1 ! q = STATE_FILLED" "slot_key s1 q = Some key" by blast
    from slot_key_in_keys [OF q(3)] obtain kv where
      kv: "deref (values_list s1) (pointers s1 ! q) = Some kv" "fst kv = key"
      "kv \<in> set (HashMap_iterate s1)" by blast
    from kv(2,3) it1 have "(key, snd kv) \<in> set (HashMap_iterate s)" by (cases kv) simp
    with True q kv(1) s1 it1 show ?thesis by (simp add: HashMap_subscript_def)
  next
    case False
    with k1 have "key \<notin> keys s1" by simp
    from lookup_absent [OF s1(2) this] obtain q where q: "q < ?n"
      "lookup_probe s1 key ?home = Some (Inr q)" "states s1 ! q = STATE_EMPTY"
      "walk (\<lambda>p. states s1 ! p \<noteq> STATE_EMPTY) ?n ?home q" by blast
    let ?s' = "append_record s1 q (key, dflt)"
    from q(3) have nf: "states s1 ! q \<noteq> STATE_FILLED" by simp
    from append_record_inv [OF s1(2,3) q(1) nf] q(4) have inv': "hm_inv ?s'" by simp
    from q(2,3) s1(1) have res: "HashMap_subscript True dflt key s = Some (Inr (?s', dflt))"
      by (simp add: HashMap_subscript_def)
    have it': "HashMap_iterate ?s' = HashMap_iterate s @ [(key, dflt)]"
      by (simp add: append_record_def HashMap_iterate_def s1(4))
    have er: "STATE_ERASED \<notin> set (states s1) \<Longrightarrow> STATE_ERASED \<notin> set (states ?s')"
      by (auto simp: append_record_def dest!: subsetD [OF set_update_subset_insert])
    from res inv' it' er False s1(5,7) show ?thesis
      by (auto simp: append_record_def)
  qed
qed

lemma list_erase_split:
  "distinct (map fst vs) \<Longrightarrow> (m, kv) \<in> set vs \<Longrightarrow>
     \<exists>xs ys. vs = xs @ (m, kv) # ys \<and> list_erase m vs = xs @ ys"
proof (induction vs)
  case Nil
  then show ?case by simp
next
  case (Cons r rs)
  show ?case
  proof (cases "fst r = m")
    case True
    with Cons.prems have "r = (m, kv)" by (cases r) (force simp: image_iff)
    then show ?thesis by (intro exI [of _ "[]"] exI [of _ rs]) simp
  next
    case False
    with Cons.prems have "(m, kv) \<in> set rs" "distinct (map fst rs)" by auto
    from Cons.IH [OF this(2,1)] obtain xs ys where "rs = xs @ (m, kv) # ys"
      "list_erase m rs = xs @ ys" by blast
    with False show ?thesis by (intro exI [of _ "r # xs"] exI [of _ ys]) simp
  qed
qed

lemma HashMap_erase_inv:
  assumes "hm_inv s"
  shows "\<exists>s'. HashMap_erase key s = Some (Inr s') \<and> hm_inv s' \<and> hash s' = hash s \<and>
     ((key \<notin> keys s \<and> HashMap_iterate s' = HashMap_iterate s) \<or>
      (\<exists>xs v ys. HashMap_iterate s = xs @ (key, v) # ys \<and> HashMap_iterate s' = xs @ ys))"
proof (cases "key \<in> keys s")
  case False
  from lookup_absent [OF assms this] obtain q where
    "lookup_probe s key (hash s key mod length (pointers s)) = Some (Inr q)"
    "states s ! q = STATE_EMPTY" by blast
  with False assms show ?thesis by (simp add: HashMap_erase_def)
next
  case True
  from lookup_present [OF assms this] obtain q where q: "q < length (pointers s)"
    "lookup_probe s key (hash s key mod length (pointers s)) = Some (Inr q)"
    "states s ! q = STATE_FILLED" "slot_key s q = Some key" by blast
  from assms have lk: "links_ok s" by (simp add: hm_inv_def refs_ok_links)
  with q obtain m where m: "m \<in> handles s" "pointers s ! q = At m"
    by (auto simp: links_ok_def)
  from q(4) m(2) obtain v where v: "map_of (values_list s) m = Some (key, v)"
    by (auto simp: slot_key_def deref_def)
  then have "(m, key, v) \<in> set (values_list s)" by (rule map_of_SomeD)
  with lk list_erase_split [of "values_list s" m "(key, v)"] obtain xs ys where
    sp: "values_list s = xs @ (m, key, v) # ys" "list_erase m (values_list s) = xs @ ys"
    by (auto simp: links_ok_def)
  from q(2,3) m(2) have res: "HashMap_erase key s = Some (Inr (unlink s q m))"
    by (simp add: HashMap_erase_def unlink_def)
  from sp have "HashMap_iterate s = map snd xs @ (key, v) # map snd ys"
    "HashMap_iterate (unlink s q m) = map snd xs @ map snd ys"
    by (simp_all add: HashMap_iterate_def unlink_def)
  with res unlink_inv [OF assms q(1,3) m(2)] show ?thesis
    by (auto simp: unlink_def)
qed

lemma HashMap_new_inv: "hm_inv (HashMap_new h)"
  by (simp add: hm_inv_def sizes_ok_def size_inv_def refs_ok_def links_ok_def chains_ok_def handles_def
      HashMap_new_def INITIAL_SIZE_def)

lemma hm_step_inv:
  assumes "hm_inv s" and "x \<noteq> Clear"
  shows "\<exists>s'. hm_step dflt x s = Some (Inr s') \<and> hm_inv s' \<and> hash s' = hash s"
proof (cases x)
  case (Insert k v)
  with HashMap_insert_inv [OF assms(1), of "(k, v)"] show ?thesis by auto
next
  case (Subscript k)
  with HashMap_subscript_inv [OF assms(1), of dflt k] show ?thesis by auto
next
  case (Erase k)
  with HashMap_erase_inv [OF assms(1), of k] show ?thesis by auto
next
  case Clear
  with assms(2) show ?thesis by simp
qed

lemma hm_run_inv:
  "hm_inv s \<Longrightarrow> Clear \<notin> set ops \<Longrightarrow>
     \<exists>s'. hm_run dflt ops s = Some (Inr s') \<and> hm_inv s' \<and> hash s' = hash s"
proof (induction ops arbitrary: s)
  case Nil
  then show ?case by simp
next
  case (Cons x xs)
  from Cons.prems(2) have "x \<noteq> Clear" "Clear \<notin> set xs" by auto
  from hm_step_inv [OF Cons.prems(1) this(1), of dflt] obtain s1 where
    s1: "hm_step dflt x s = Some (Inr s1)" "hm_inv s1" "hash s1 = hash s" by blast
  from Cons.IH [OF s1(2) \<open>Clear \<notin> set xs\<close>] s1(1,3) show ?case by auto
qed

lemma lookup_after_run_without_clear:
  assumes "Clear \<notin> set ops"
  shows "\<exists>s. hm_run dflt ops (HashMap_new h) = Some (Inr s) \<and>
     (if key \<in> fst ` set (HashMap_iterate s)
      then \<exists>v. HashMap_at key s = Some (Inr v) \<and> (key, v) \<in> set (HashMap_iterate s)
      else HashMap_at key s = Some (Inl KeyNotFound))"
proof -
  from hm_run_inv [OF HashMap_new_inv assms, of dflt h] obtain s where
    s: "hm_run dflt ops (HashMap_new h) = Some (Inr s)" "hm_inv s" by blast
  from HashMap_at_present [OF s(2), of key] HashMap_at_absent [OF s(2), of key] s(1)
  show ?thesis by (auto simp: keys_def)
qed

lemma erase_after_run_without_clear:
  assumes "Clear \<notin> set ops" and "hm_run dflt ops (HashMap_new h) = Some (Inr s)"
  shows "\<exists>s'. HashMap_erase key s = Some (Inr s') \<and>
     ((key \<notin> fst ` set (HashMap_iterate s) \<and> HashMap_iterate s' = HashMap_iterate s) \<or>
      (\<exists>xs v ys. HashMap_iterate s = xs @ (key, v) # ys \<and> HashMap_iterate s' = xs @ ys))"
proof -
  from hm_run_inv [OF HashMap_new_inv assms(1), of dflt h] assms(2) have "hm_inv s" by auto
  from HashMap_erase_inv [OF this, of key] show ?thesis by (auto simp: keys_def)
qed

lemma hm_run_inserts:
  "hm_inv s \<Longrightarrow> STATE_ERASED \<notin> set (states s) \<Longrightarrow> list_all inserts_only ops \<Longrightarrow>
     \<exists>s'. hm_run dflt ops s = Some (Inr s') \<and> hm_inv s' \<and>
       HashMap_iterate s' = foldl (\<lambda>rs x. spec_step dflt x rs) (HashMap_iterate s) ops"
proof (induction ops arbitrary: s)
  case Nil
  then show ?case by simp
next
  case (Cons x xs)
  from Cons.prems(3) have io: "inserts_only x" and rest: "list_all inserts_only xs" by auto
  have "\<exists>s1. hm_step dflt x s = Some (Inr s1) \<and> hm_inv s1 \<and>
      STATE_ERASED \<notin> set (states s1) \<and>
      HashMap_iterate s1 = spec_step dflt x (HashMap_iterate s)"
  proof (cases x)
    case (Insert k v)
    with HashMap_insert_inv [OF Cons.prems(1), of "(k, v)"] Cons.prems(2)
    show ?thesis by (auto simp: keys_def)
  next
    case (Subscript k)
    with HashMap_subscript_inv [OF Cons.prems(1), of dflt k] Cons.prems(2)
    show ?thesis by (auto simp: keys_def)
  next
    case (Erase k)
    with io show ?thesis by simp
  next
    case Clear
    with io show ?thesis by simp
  qed
  then obtain s1 where s1: "hm_step dflt x s = Some (Inr s1)" "hm_inv s1"
    "STATE_ERASED \<notin> set (states s1)"
    "HashMap_iterate s1 = spec_step dflt x (HashMap_iterate s)" by blast
  from Cons.IH [OF s1(2,3) rest] s1(1,4) show ?case by auto
qed

lemma iteration_after_inserts_only:
  assumes "list_all inserts_only ops"
  shows "\<exists>s. hm_run dflt ops (HashMap_new h) = Some (Inr s) \<and>
     HashMap_iterate s = spec_records dflt ops"
proof -
  have "STATE_ERASED \<notin> set (states (HashMap_new h :: ('a, 'b) HashMap))"
    by (simp add: HashMap_new_def)
  from hm_run_inserts [OF HashMap_new_inv this assms, of dflt]
  show ?thesis by (auto simp: spec_records_def HashMap_new_def HashMap_iterate_def)
qed

lemma insert_all_distinct:
  "hm_inv s \<Longrightarrow> STATE_ERASED \<notin> set (states s) \<Longrightarrow> distinct (map fst kvs) \<Longrightarrow>
   fst ` set kvs \<inter> keys s = {} \<Longrightarrow>
     \<exists>s'. insert_all True kvs s = Some (Inr s') \<and> hash s' = hash s \<and>
       HashMap_iterate s' = HashMap_iterate s @ kvs"
proof (induction kvs arbitrary: s)
  case Nil
  then show ?case by simp
next
  case (Cons kv kvs)
  from Cons.prems(4) have nk: "fst kv \<notin> keys s" by auto
  from HashMap_insert_inv [OF Cons.prems(1), of kv] nk Cons.prems(2) obtain s1 where
    s1: "HashMap_insert True kv s = Some (Inr s1)" "hm_inv s1" "hash s1 = hash s"
    "STATE_ERASED \<notin> set (states s1)" "HashMap_iterate s1 = HashMap_iterate s @ [kv]"
    by auto
  from s1(5) have "keys s1 = insert (fst kv) (keys s)" by (auto simp: keys_def)
  with Cons.prems(3,4) have "distinct (map fst kvs)" "fst ` set kvs \<inter> keys s1 = {}" by auto
  from Cons.IH [OF s1(2,4) this] s1(1,3,5) show ?case by auto
qed

lemma copy_of_distinct_keys:
  assumes "distinct (map fst (HashMap_iterate other))"
  shows "\<exists>c. HashMap_copy True other h = Some (Inr c) \<and>
     HashMap_iterate c = HashMap_iterate other \<and> hash_function c = h"
proof -
  have e: "STATE_ERASED \<notin> set (states (HashMap_new h :: ('a, 'b) HashMap))"
    and k: "keys (HashMap_new h :: ('a, 'b) HashMap) = {}"
    by (simp_all add: HashMap_new_def keys_def HashMap_iterate_def)
  from insert_all_distinct [OF HashMap_new_inv e assms] k
  show ?thesis
    by (auto simp: HashMap_copy_def HashMap_iterate_def HashMap_new_def hash_function_def)
qed

lemma check_size_growth:
  assumes "check_size True s = Some s'"
    and "occupancy s * OCCUPANCY_COEFFICIENT \<ge> length (pointers s)"
  shows "length (pointers s') = 2 * length (pointers s) \<and> values_list s' = values_list s \<and>
     occupancy s' = (if values_list s = [] then occupancy s else 0)"
proof -
  from assms obtain np sts occ where
    r: "rehash_loop (hash s) (values_list s)
          (replicate (length (pointers s) * 2) Singular,
           replicate (length (pointers s) * 2) STATE_EMPTY, occupancy s) = Some (np, sts, occ)"
    and s': "s' = s\<lparr>pointers := np, states := sts, occupancy := occ\<rparr>"
    by (auto simp: check_size_def split: option.splits)
  from rehash_loop_shape [OF r] s' show ?thesis by simp
qed

lemma growth_after_run_without_clear:
  assumes "Clear \<notin> set ops" and "hm_run dflt ops (HashMap_new h) = Some (Inr s)"
    and "occupancy s * OCCUPANCY_COEFFICIENT \<ge> length (pointers s)"
  shows "\<exists>s'. check_size True s = Some s' \<and> length (pointers s') = 2 * length (pointers s) \<and>
     HashMap_iterate s' = HashMap_iterate s \<and>
     occupancy s' = (if HashMap_iterate s = [] then occupancy s else 0) \<and>
     STATE_ERASED \<notin> set (states s') \<and>
     list_all (\<lambda>kv. \<exists>v. HashMap_at (fst kv) s' = Some (Inr v) \<and>
        (fst kv, v) \<in> set (HashMap_iterate s)) (HashMap_iterate s)"
proof -
  from hm_run_inv [OF HashMap_new_inv assms(1), of dflt h] assms(2) have inv: "hm_inv s" by auto
  from check_size_inv [OF inv] obtain s' where s': "check_size True s = Some s'" "hm_inv s'"
    "values_list s' = values_list s"
    "STATE_ERASED \<notin> set (states s) \<longrightarrow> STATE_ERASED \<notin> set (states s')" by blast
  from check_size_growth [OF s'(1) assms(3)] have g: "length (pointers s') = 2 * length (pointers s)"
    "occupancy s' = (if values_list s = [] then occupancy s else 0)" by auto
  from s'(3) have it: "HashMap_iterate s' = HashMap_iterate s" by (simp add: HashMap_iterate_def)
  have ne: "STATE_ERASED \<notin> set (states s')"
  proof -
    from s'(1) assms(3) obtain np sts occ where
      r: "rehash_loop (hash s) (values_list s)
            (replicate (length (pointers s) * 2) Singular,
             replicate (length (pointers s) * 2) STATE_EMPTY, occupancy s) = Some (np, sts, occ)"
      and e: "s' = s\<lparr>pointers := np, states := sts, occupancy := occ\<rparr>"
      by (auto simp: check_size_def split: option.splits)
    have gen: "set sts \<subseteq> {STATE_EMPTY, STATE_FILLED}"
      if "rehash_loop hh rs (np0, sts0, occ0) = Some (np, sts, occ)"
        "set sts0 \<subseteq> {STATE_EMPTY, STATE_FILLED}" for hh :: "'a \<Rightarrow> nat"
        and rs :: "(nat \<times> 'a \<times> 'b) list" and np0 sts0 occ0
      using that
    proof (induction rs arbitrary: np0 sts0 occ0)
      case Nil
      then show ?case by simp
    next
      case (Cons r rs)
      from Cons.prems(1) obtain q where
        q: "rehash_loop hh rs (np0[q := At (fst r)], sts0[q := STATE_FILLED], 0) = Some (np, sts, occ)"
        by (auto split: option.splits)
      from Cons.prems(2) have "set (sts0[q := STATE_FILLED]) \<subseteq> {STATE_EMPTY, STATE_FILLED}"
        using set_update_subset_insert [of sts0 q STATE_FILLED] by auto
      from Cons.IH [OF q this] show ?case .
    qed
    have "set (replicate (length (pointers s) * 2) STATE_EMPTY) \<subseteq> {STATE_EMPTY, STATE_FILLED}"
      by auto
    from gen [OF r this] e show ?thesis by auto
  qed
  have "list_all (\<lambda>kv. \<exists>v. HashMap_at (fst kv) s' = Some (Inr v) \<and>
        (fst kv, v) \<in> set (HashMap_iterate s)) (HashMap_iterate s)"
    unfolding list_all_iff
  proof
    fix kv assume "kv \<in> set (HashMap_iterate s)"
    with it have "fst kv \<in> keys s'" by (auto simp: keys_def)
    from HashMap_at_present [OF s'(2) this] it
    show "\<exists>v. HashMap_at (fst kv) s' = Some (Inr v) \<and> (fst kv, v) \<in> set (HashMap_iterate s)"
      by simp
  qed
  with s'(1) g it ne show ?thesis by (auto simp: HashMap_iterate_def)
qed

section \<open>Set: what the code does\<close>

subsection \<open>Balance\<close>

lemma avl_cached_height: "avl t \<Longrightarrow> cached_height t = hgt t"
  by (cases t) auto

lemma update_height_eq: "update_height l r = max (cached_height l) (cached_height r) + 1"
  by (cases l; cases r) (auto simp: update_height_def Let_def)

lemma hgt_set_parent [simp]: "hgt (set_parent q t) = hgt t"
  by (cases t) auto

lemma avl_set_parent [simp]: "avl (set_parent q t) = avl t"
  by (cases t) auto

lemma cached_height_set_parent [simp]: "cached_height (set_parent q t) = cached_height t"
  by (cases t) auto

lemma hgt_0_iff [simp]: "hgt t = 0 \<longleftrightarrow> t = Null"
  by (cases t) auto

text \<open>
  \<^verbatim>\<open>balance_node\<close> on a node whose children are balanced and differ in height by at most
  two: it returns, the result is balanced, and its height is the larger child height or
  one more.
\<close>

lemma balance_node_avl:
  assumes "avl l" "avl r" "hgt l \<le> hgt r + 2" "hgt r \<le> hgt l + 2"
  shows "\<exists>t'. balance_node (Node a l r p v (update_height l r)) = Inr t' \<and> avl t' \<and>
           max (hgt l) (hgt r) \<le> hgt t' \<and> hgt t' \<le> max (hgt l) (hgt r) + 1 \<and>
           (hgt l \<le> hgt r + 1 \<and> hgt r \<le> hgt l + 1 \<longrightarrow> hgt t' = max (hgt l) (hgt r) + 1)"
proof -
  consider (bal) "hgt l \<le> hgt r + 1" "hgt r \<le> hgt l + 1"
    | (right) "hgt r = hgt l + 2" | (left) "hgt l = hgt r + 2"
    using assms(3,4) by linarith
  then show ?thesis
  proof cases
    case bal
    with assms show ?thesis
      by (auto simp: get_balance_def update_height_eq avl_cached_height)
  next
    case right
    then obtain b rl rr bp bv bh where r: "r = Node b rl rr bp bv bh"
      by (cases r) auto
    show ?thesis
    proof (cases "get_balance rl rr = 1")
      case False
      with assms right r show ?thesis
        by (auto simp: get_balance_def update_height_eq avl_cached_height Let_def)
    next
      case True
      with assms r obtain c rll rlr cp cv ch where rl: "rl = Node c rll rlr cp cv ch"
        by (cases rl) (auto simp: get_balance_def avl_cached_height)
      with True assms right r show ?thesis
        by (auto simp: get_balance_def update_height_eq avl_cached_height Let_def)
    qed
  next
    case left
    then obtain b ll lr bp bv bh where l: "l = Node b ll lr bp bv bh"
      by (cases l) auto
    show ?thesis
    proof (cases "get_balance ll lr = - 1")
      case False
      with assms left l show ?thesis
        by (auto simp: get_balance_def update_height_eq avl_cached_height Let_def)
    next
      case True
      with assms l obtain c lrl lrr cp cv ch where lr: "lr = Node c lrl lrr cp cv ch"
        by (cases lr) (auto simp: get_balance_def avl_cached_height)
      with True assms left l show ?thesis
        by (auto simp: get_balance_def update_height_eq avl_cached_height Let_def)
    qed
  qed
qed

lemma rebalance_avl:
  assumes "avl l" "avl r" "hgt l \<le> hgt r + 2" "hgt r \<le> hgt l + 2"
  shows "\<exists>t'. rebalance (Node a l r p v h) st = Inr (t', st) \<and> avl t' \<and>
           max (hgt l) (hgt r) \<le> hgt t' \<and> hgt t' \<le> max (hgt l) (hgt r) + 1 \<and>
           (hgt l \<le> hgt r + 1 \<and> hgt r \<le> hgt l + 1 \<longrightarrow> hgt t' = max (hgt l) (hgt r) + 1)"
  using balance_node_avl [OF assms, of a p v] by (auto simp: rebalance_def)

lemma insert_value_avl:
  "avl t \<Longrightarrow> \<exists>t' st'. insert_value val par t (fresh, n) = Inr (t', st') \<and> avl t' \<and>
     (hgt t' = hgt t \<or> hgt t' = hgt t + 1)"
proof (induction t arbitrary: par fresh n)
  case Null
  then show ?case by simp
next
  case (Node a l r p v h)
  from Node.prems have al: "avl l" and ar: "avl r"
    and b: "hgt l \<le> hgt r + 1" "hgt r \<le> hgt l + 1" by auto
  show ?case
  proof (cases "node_equal v val")
    case True
    with Node.prems show ?thesis by simp
  next
    case ne: False
    show ?thesis
    proof (cases "val < v")
      case True
      from Node.IH(1) [OF al, of "Some a" fresh n] obtain l' st' where
        i: "insert_value val (Some a) l (fresh, n) = Inr (l', st')" and al': "avl l'"
        and hl: "hgt l' = hgt l \<or> hgt l' = hgt l + 1" by blast
      from hl b have "hgt l' \<le> hgt r + 2" "hgt r \<le> hgt l' + 2" by auto
      from rebalance_avl [OF al' ar this, of a p v h st'] obtain t' where
        "rebalance (Node a l' r p v h) st' = Inr (t', st')" "avl t'"
        "max (hgt l') (hgt r) \<le> hgt t'" "hgt t' \<le> max (hgt l') (hgt r) + 1"
        "hgt l' \<le> hgt r + 1 \<and> hgt r \<le> hgt l' + 1 \<longrightarrow> hgt t' = max (hgt l') (hgt r) + 1"
        by blast
      with ne True i hl b show ?thesis by (auto simp: max_def split: if_splits)
    next
      case False
      from Node.IH(2) [OF ar, of "Some a" fresh n] obtain r' st' where
        i: "insert_value val (Some a) r (fresh, n) = Inr (r', st')" and ar': "avl r'"
        and hr: "hgt r' = hgt r \<or> hgt r' = hgt r + 1" by blast
      from hr b have "hgt l \<le> hgt r' + 2" "hgt r' \<le> hgt l + 2" by auto
      from rebalance_avl [OF al ar' this, of a p v h st'] obtain t' where
        "rebalance (Node a l r' p v h) st' = Inr (t', st')" "avl t'"
        "max (hgt l) (hgt r') \<le> hgt t'" "hgt t' \<le> max (hgt l) (hgt r') + 1"
        "hgt l \<le> hgt r' + 1 \<and> hgt r' \<le> hgt l + 1 \<longrightarrow> hgt t' = max (hgt l) (hgt r') + 1"
        by blast
      with ne False i hr b show ?thesis by (auto simp: max_def split: if_splits)
    qed
  qed
qed

lemma swap_leftmost_shape:
  "swap_leftmost v t = Inr (u, t') \<Longrightarrow>
     hgt t' = hgt t \<and> avl t' = avl t \<and> cached_height t' = cached_height t"
  by (induction t arbitrary: t') (auto split: if_splits sum.splits)

lemma swap_rightmost_shape:
  "swap_rightmost v t = Inr (u, t') \<Longrightarrow>
     hgt t' = hgt t \<and> avl t' = avl t \<and> cached_height t' = cached_height t"
  by (induction t arbitrary: t') (auto split: if_splits sum.splits)

lemma swap_leftmost_defined: "t \<noteq> Null \<Longrightarrow> \<exists>u t'. swap_leftmost v t = Inr (u, t')"
proof (induction t)
  case Null
  then show ?case by simp
next
  case (Node a l r p w h)
  show ?case
  proof (cases "l = Null")
    case True
    then show ?thesis by simp
  next
    case False
    from Node.IH(1) [OF this] obtain u l' where "swap_leftmost v l = Inr (u, l')" by blast
    with False show ?thesis by simp
  qed
qed

lemma swap_rightmost_defined: "t \<noteq> Null \<Longrightarrow> \<exists>u t'. swap_rightmost v t = Inr (u, t')"
proof (induction t)
  case Null
  then show ?case by simp
next
  case (Node a l r p w h)
  show ?case
  proof (cases "r = Null")
    case True
    then show ?thesis by simp
  next
    case False
    from Node.IH(2) [OF this] obtain u r' where "swap_rightmost v r = Inr (u, r')" by blast
    with False show ?thesis by simp
  qed
qed

lemma erase_value_avl:
  "avl t \<Longrightarrow> \<exists>t' n'. erase_value val t n = Inr (t', n') \<and> avl t' \<and>
     (hgt t' = hgt t \<or> hgt t' + 1 = hgt t)"
proof (induction val t n rule: erase_value.induct)
  case (1 val n)
  then show ?case by simp
next
  case (2 val a l r p v h n)
  from "2.prems" have al: "avl l" and ar: "avl r"
    and b: "hgt l \<le> hgt r + 1" "hgt r \<le> hgt l + 1" by auto
  have left: ?case
    if e: "erase_value val l1 n = Inr (l', n')" and al': "avl l'"
      and hl: "hgt l' = hgt l \<or> hgt l' + 1 = hgt l"
      and res: "erase_value val (Node a l r p v h) n = rebalance (Node a l' r p u h) n'"
    for l1 l' n' u
  proof -
    from hl b have "hgt l' \<le> hgt r + 2" "hgt r \<le> hgt l' + 2" by auto
    from rebalance_avl [OF al' ar this, of a p u h n'] obtain t' where
      "rebalance (Node a l' r p u h) n' = Inr (t', n')" "avl t'"
      "max (hgt l') (hgt r) \<le> hgt t'" "hgt t' \<le> max (hgt l') (hgt r) + 1"
      "hgt l' \<le> hgt r + 1 \<and> hgt r \<le> hgt l' + 1 \<longrightarrow> hgt t' = max (hgt l') (hgt r) + 1"
      by blast
    moreover from this(3-5) hl b
    have "hgt t' = hgt (Node a l r p v h) \<or> hgt t' + 1 = hgt (Node a l r p v h)"
      by (auto simp: max_def split: if_splits)
    ultimately show ?thesis unfolding res by blast
  qed
  have right: ?case
    if e: "erase_value val r1 n = Inr (r', n')" and ar': "avl r'"
      and hr: "hgt r' = hgt r \<or> hgt r' + 1 = hgt r"
      and res: "erase_value val (Node a l r p v h) n = rebalance (Node a l r' p u h) n'"
    for r1 r' n' u
  proof -
    from hr b have "hgt l \<le> hgt r' + 2" "hgt r' \<le> hgt l + 2" by auto
    from rebalance_avl [OF al ar' this, of a p u h n'] obtain t' where
      "rebalance (Node a l r' p u h) n' = Inr (t', n')" "avl t'"
      "max (hgt l) (hgt r') \<le> hgt t'" "hgt t' \<le> max (hgt l) (hgt r') + 1"
      "hgt l \<le> hgt r' + 1 \<and> hgt r' \<le> hgt l + 1 \<longrightarrow> hgt t' = max (hgt l) (hgt r') + 1"
      by blast
    moreover from this(3-5) hr b
    have "hgt t' = hgt (Node a l r p v h) \<or> hgt t' + 1 = hgt (Node a l r p v h)"
      by (auto simp: max_def split: if_splits)
    ultimately show ?thesis unfolding res by blast
  qed
  show ?case
  proof (cases "node_equal v val")
    case eq: True
    show ?thesis
    proof (cases "l = Null \<and> r = Null")
      case True
      with eq show ?thesis by simp
    next
      case nl: False
      show ?thesis
      proof (cases "l = Null \<or> (r \<noteq> Null \<and> cached_height r > cached_height l)")
        case True
        with nl have "r \<noteq> Null" by auto
        from swap_leftmost_defined [OF this, of v] obtain u r1 where
          sw: "swap_leftmost v r = Inr (u, r1)" by blast
        from swap_leftmost_shape [OF sw] ar have ar1: "avl r1" and h1: "hgt r1 = hgt r" by auto
        from "2.IH"(1) [OF eq nl True sw refl ar1] obtain r' n' where
          e: "erase_value val r1 n = Inr (r', n')" and "avl r'"
          and "hgt r' = hgt r1 \<or> hgt r' + 1 = hgt r1" by blast
        with h1 eq nl True sw show ?thesis
          by (intro right [of r1 r' n' u]) auto
      next
        case False
        with nl have "l \<noteq> Null" by auto
        from swap_rightmost_defined [OF this, of v] obtain u l1 where
          sw: "swap_rightmost v l = Inr (u, l1)" by blast
        from swap_rightmost_shape [OF sw] al have al1: "avl l1" and h1: "hgt l1 = hgt l" by auto
        from "2.IH"(2) [OF eq nl False sw refl al1] obtain l' n' where
          e: "erase_value val l1 n = Inr (l', n')" and "avl l'"
          and "hgt l' = hgt l1 \<or> hgt l' + 1 = hgt l1" by blast
        with h1 eq nl False sw show ?thesis
          by (intro left [of l1 l' n' u]) auto
      qed
    qed
  next
    case ne: False
    show ?thesis
    proof (cases "val < v")
      case True
      from "2.IH"(3) [OF ne True al] obtain l' n' where
        e: "erase_value val l n = Inr (l', n')" and "avl l'"
        and "hgt l' = hgt l \<or> hgt l' + 1 = hgt l" by blast
      with ne True show ?thesis by (intro left [of l l' n' v]) auto
    next
      case False
      from "2.IH"(4) [OF ne False ar] obtain r' n' where
        e: "erase_value val r n = Inr (r', n')" and "avl r'"
        and "hgt r' = hgt r \<or> hgt r' + 1 = hgt r" by blast
      with ne False show ?thesis by (intro right [of r r' n' v]) auto
    qed
  qed
qed

subsection \<open>Order, addresses and parent links\<close>

lemma inorder_set_parent [simp]: "inorder (set_parent q t) = inorder t"
  by (cases t) auto

lemma addrs_set_parent [simp]: "addrs (set_parent q t) = addrs t"
  by (cases t) auto

lemma parents_ok_set_parent: "parents_ok q t \<Longrightarrow> parents_ok q' (set_parent q' t)"
  by (cases t) auto

lemma rotate_left_keeps:
  "rotate_left t = Inr t' \<Longrightarrow>
     inorder t' = inorder t \<and> addrs t' = addrs t \<and> (parents_ok q t \<longrightarrow> parents_ok q t')"
  by (induction t rule: rotate_left.induct) (auto simp: Let_def intro: parents_ok_set_parent)

lemma rotate_right_keeps:
  "rotate_right t = Inr t' \<Longrightarrow>
     inorder t' = inorder t \<and> addrs t' = addrs t \<and> (parents_ok q t \<longrightarrow> parents_ok q t')"
  by (induction t rule: rotate_right.induct) (auto simp: Let_def intro: parents_ok_set_parent)

lemma big_rotate_left_keeps:
  "big_rotate_left t = Inr t' \<Longrightarrow>
     inorder t' = inorder t \<and> addrs t' = addrs t \<and> (parents_ok q t \<longrightarrow> parents_ok q t')"
proof (cases t)
  case Null
  then show "big_rotate_left t = Inr t' \<Longrightarrow> ?thesis" by simp
next
  case (Node a l r p v h)
  assume "big_rotate_left t = Inr t'"
  with Node obtain r' where r: "rotate_right r = Inr r'"
    and t': "rotate_left (Node a l r' p v h) = Inr t'"
    by (auto split: sum.splits)
  from rotate_right_keeps [OF r, of "Some a"] rotate_left_keeps [OF t', of q] Node
  show ?thesis by auto
qed

lemma big_rotate_right_keeps:
  "big_rotate_right t = Inr t' \<Longrightarrow>
     inorder t' = inorder t \<and> addrs t' = addrs t \<and> (parents_ok q t \<longrightarrow> parents_ok q t')"
proof (cases t)
  case Null
  then show "big_rotate_right t = Inr t' \<Longrightarrow> ?thesis" by simp
next
  case (Node a l r p v h)
  assume "big_rotate_right t = Inr t'"
  with Node obtain l' where l: "rotate_left l = Inr l'"
    and t': "rotate_right (Node a l' r p v h) = Inr t'"
    by (auto split: sum.splits)
  from rotate_left_keeps [OF l, of "Some a"] rotate_right_keeps [OF t', of q] Node
  show ?thesis by auto
qed

lemma balance_node_keeps:
  assumes "balance_node t = Inr t'"
  shows "inorder t' = inorder t \<and> addrs t' = addrs t \<and> (parents_ok q t \<longrightarrow> parents_ok q t')"
proof (cases t)
  case Null
  with assms show ?thesis by simp
next
  case (Node a l r p v h)
  with assms have
    "big_rotate_left t = Inr t' \<or> rotate_left t = Inr t' \<or>
     big_rotate_right t = Inr t' \<or> rotate_right t = Inr t' \<or> t' = t"
    by (auto simp: Let_def split: if_splits node.splits)
  then show ?thesis
    using big_rotate_left_keeps [of t t' q] rotate_left_keeps [of t t' q]
      big_rotate_right_keeps [of t t' q] rotate_right_keeps [of t t' q]
    by blast
qed

lemma rebalance_keeps:
  assumes "rebalance (Node a l r p v h) st = Inr (t', st')"
  shows "inorder t' = inorder l @ v # inorder r \<and> addrs t' = addrs l @ a # addrs r \<and> st' = st \<and>
         (parents_ok (Some a) l \<and> parents_ok (Some a) r \<longrightarrow> parents_ok p t')"
proof -
  from assms have b: "balance_node (Node a l r p v (update_height l r)) = Inr t'" and "st' = st"
    by (auto simp: rebalance_def split: sum.splits)
  from balance_node_keeps [OF b, of p] \<open>st' = st\<close> show ?thesis by simp
qed

lemma node_equal_iff [simp]: "node_equal v val \<longleftrightarrow> v = val"
  by (auto simp: node_equal_def)

lemma bst_inorder:
  "inorder t = inorder l @ v # inorder r \<Longrightarrow>
     bst t \<longleftrightarrow>
       bst l \<and> bst r \<and> (\<forall>x \<in> set (inorder l). x < v) \<and> (\<forall>y \<in> set (inorder r). v < y)"
  by (auto simp: bst_def sorted_wrt_append) (meson less_trans)

lemma bst_Node:
  "bst (Node a l r p v h) \<longleftrightarrow>
     bst l \<and> bst r \<and> (\<forall>x \<in> set (inorder l). x < v) \<and> (\<forall>y \<in> set (inorder r). v < y)"
  by (rule bst_inorder) simp

lemma insert_value_inorder:
  "bst t \<Longrightarrow> insert_value val par t (fresh, n) = Inr (t', st') \<Longrightarrow>
     set (inorder t') = insert val (set (inorder t)) \<and> bst t'"
proof (induction t arbitrary: par fresh n t' st')
  case Null
  then show ?case by (auto simp: bst_def)
next
  case (Node a l r p v h)
  from Node.prems(1) have bl: "bst l" and br: "bst r"
    and lv: "\<forall>x \<in> set (inorder l). x < v" and vr: "\<forall>y \<in> set (inorder r). v < y"
    by (simp_all add: bst_Node)
  show ?case
  proof (cases "v = val")
    case True
    with Node.prems show ?thesis by auto
  next
    case ne: False
    show ?thesis
    proof (cases "val < v")
      case True
      with ne Node.prems(2) obtain l' st1 where
        i: "insert_value val (Some a) l (fresh, n) = Inr (l', st1)"
        and r: "rebalance (Node a l' r p v h) st1 = Inr (t', st')"
        by (auto split: sum.splits)
      from Node.IH(1) [OF bl i] have sl: "set (inorder l') = insert val (set (inorder l))"
        and bl': "bst l'" by auto
      from rebalance_keeps [OF r] have io: "inorder t' = inorder l' @ v # inorder r" by simp
      from sl lv True have "\<forall>x \<in> set (inorder l'). x < v" by simp
      with bl' br vr have "bst t'" by (simp add: bst_inorder [OF io])
      moreover from io sl have "set (inorder t') = insert val (set (inorder (Node a l r p v h)))"
        by auto
      ultimately show ?thesis by simp
    next
      case False
      with ne Node.prems(2) obtain r' st1 where
        i: "insert_value val (Some a) r (fresh, n) = Inr (r', st1)"
        and r: "rebalance (Node a l r' p v h) st1 = Inr (t', st')"
        by (auto split: sum.splits)
      from Node.IH(2) [OF br i] have sr: "set (inorder r') = insert val (set (inorder r))"
        and br': "bst r'" by auto
      from rebalance_keeps [OF r] have io: "inorder t' = inorder l @ v # inorder r'" by simp
      from False ne have "v < val" by simp
      with sr vr have "\<forall>y \<in> set (inorder r'). v < y" by simp
      with bl br' lv have "bst t'" by (simp add: bst_inorder [OF io])
      moreover from io sr have "set (inorder t') = insert val (set (inorder (Node a l r p v h)))"
        by auto
      ultimately show ?thesis by simp
    qed
  qed
qed

lemma insert_value_addrs:
  "insert_value val par t (fresh, n) = Inr (t', fresh', n') \<Longrightarrow>
   \<forall>x \<in> set (addrs t). x < fresh \<Longrightarrow> distinct (addrs t) \<Longrightarrow> parents_ok par t \<Longrightarrow>
     distinct (addrs t') \<and> set (addrs t') \<subseteq> insert fresh (set (addrs t)) \<and> fresh \<le> fresh' \<and>
     (\<forall>x \<in> set (addrs t'). x < fresh') \<and> parents_ok par t'"
proof (induction t arbitrary: par fresh n t' fresh' n')
  case Null
  then show ?case by auto
next
  case (Node a l r p v h)
  show ?case
  proof (cases "v = val")
    case True
    with Node.prems show ?thesis by auto
  next
    case ne: False
    show ?thesis
    proof (cases "val < v")
      case True
      with ne Node.prems(1) obtain l' st1 where
        i: "insert_value val (Some a) l (fresh, n) = Inr (l', st1)"
        and r: "rebalance (Node a l' r p v h) st1 = Inr (t', fresh', n')"
        by (auto split: sum.splits)
      from rebalance_keeps [OF r] have st1: "st1 = (fresh', n')"
        and ad: "addrs t' = addrs l' @ a # addrs r"
        and po: "parents_ok (Some a) l' \<and> parents_ok (Some a) r \<longrightarrow> parents_ok p t'" by auto
      from Node.prems(2-4) have pl: "\<forall>x \<in> set (addrs l). x < fresh" "distinct (addrs l)"
        "parents_ok (Some a) l" and pr: "parents_ok (Some a) r" and pp: "p = par"
        and fr: "a < fresh" "\<forall>x \<in> set (addrs r). x < fresh"
        and d: "a \<notin> set (addrs l)" "a \<notin> set (addrs r)" "distinct (addrs r)"
          "set (addrs l) \<inter> set (addrs r) = {}"
        by auto
      from Node.IH(1) [OF i [unfolded st1] pl]
      have l': "distinct (addrs l')" "set (addrs l') \<subseteq> insert fresh (set (addrs l))"
        "fresh \<le> fresh'" "\<forall>x \<in> set (addrs l'). x < fresh'" "parents_ok (Some a) l'"
        by auto
      from l'(2) fr d have "a \<notin> set (addrs l')" "set (addrs l') \<inter> set (addrs r) = {}"
        by auto
      with l'(1) d have "distinct (addrs t')" by (simp add: ad)
      moreover from l'(2) have "set (addrs t') \<subseteq> insert fresh (set (addrs (Node a l r p v h)))"
        by (auto simp: ad)
      moreover from l'(3,4) fr have "\<forall>x \<in> set (addrs t'). x < fresh'" by (auto simp: ad)
      moreover from po l'(5) pr pp have "parents_ok par t'" by simp
      ultimately show ?thesis using l'(3) by simp
    next
      case False
      with ne Node.prems(1) obtain r' st1 where
        i: "insert_value val (Some a) r (fresh, n) = Inr (r', st1)"
        and r: "rebalance (Node a l r' p v h) st1 = Inr (t', fresh', n')"
        by (auto split: sum.splits)
      from rebalance_keeps [OF r] have st1: "st1 = (fresh', n')"
        and ad: "addrs t' = addrs l @ a # addrs r'"
        and po: "parents_ok (Some a) l \<and> parents_ok (Some a) r' \<longrightarrow> parents_ok p t'" by auto
      from Node.prems(2-4) have pr: "\<forall>x \<in> set (addrs r). x < fresh" "distinct (addrs r)"
        "parents_ok (Some a) r" and pl: "parents_ok (Some a) l" and pp: "p = par"
        and fr: "a < fresh" "\<forall>x \<in> set (addrs l). x < fresh"
        and d: "a \<notin> set (addrs l)" "a \<notin> set (addrs r)" "distinct (addrs l)"
          "set (addrs l) \<inter> set (addrs r) = {}"
        by auto
      from Node.IH(2) [OF i [unfolded st1] pr]
      have r': "distinct (addrs r')" "set (addrs r') \<subseteq> insert fresh (set (addrs r))"
        "fresh \<le> fresh'" "\<forall>x \<in> set (addrs r'). x < fresh'" "parents_ok (Some a) r'"
        by auto
      from r'(2) fr d have "a \<notin> set (addrs r')" "set (addrs l) \<inter> set (addrs r') = {}"
        by auto
      with r'(1) d have "distinct (addrs t')" by (simp add: ad)
      moreover from r'(2) have "set (addrs t') \<subseteq> insert fresh (set (addrs (Node a l r p v h)))"
        by (auto simp: ad)
      moreover from r'(3,4) fr have "\<forall>x \<in> set (addrs t'). x < fresh'" by (auto simp: ad)
      moreover from po r'(5) pl pp have "parents_ok par t'" by simp
      ultimately show ?thesis using r'(3) by simp
    qed
  qed
qed

lemma swap_leftmost_inorder:
  "swap_leftmost v t = Inr (u, t') \<Longrightarrow>
     \<exists>rest. inorder t = u # rest \<and> inorder t' = v # rest"
  by (induction t arbitrary: t') (auto split: if_splits sum.splits)

lemma swap_rightmost_inorder:
  "swap_rightmost v t = Inr (u, t') \<Longrightarrow>
     \<exists>rest. inorder t = rest @ [u] \<and> inorder t' = rest @ [v]"
  by (induction t arbitrary: t') (auto split: if_splits sum.splits)

lemma swap_leftmost_addrs:
  "swap_leftmost v t = Inr (u, t') \<Longrightarrow> addrs t' = addrs t \<and> parents_ok q t' = parents_ok q t"
  by (induction t arbitrary: t' q) (auto split: if_splits sum.splits)

lemma swap_rightmost_addrs:
  "swap_rightmost v t = Inr (u, t') \<Longrightarrow> addrs t' = addrs t \<and> parents_ok q t' = parents_ok q t"
  by (induction t arbitrary: t' q) (auto split: if_splits sum.splits)

lemma erase_value_cases:
  assumes "erase_value val (Node a l r p v h) n = Inr (t', n')"
  obtains (leaf) "v = val" "l = Null" "r = Null" "t' = Null"
  | (succ) u r1 r' n1 where "v = val" "\<not> (l = Null \<and> r = Null)"
      "l = Null \<or> (r \<noteq> Null \<and> cached_height r > cached_height l)"
      "swap_leftmost v r = Inr (u, r1)" "erase_value val r1 n = Inr (r', n1)"
      "rebalance (Node a l r' p u h) n1 = Inr (t', n')"
  | (pred) u l1 l' n1 where "v = val" "\<not> (l = Null \<and> r = Null)"
      "\<not> (l = Null \<or> (r \<noteq> Null \<and> cached_height r > cached_height l))"
      "swap_rightmost v l = Inr (u, l1)" "erase_value val l1 n = Inr (l', n1)"
      "rebalance (Node a l' r p u h) n1 = Inr (t', n')"
  | (less) l' n1 where "v \<noteq> val" "val < v" "erase_value val l n = Inr (l', n1)"
      "rebalance (Node a l' r p v h) n1 = Inr (t', n')"
  | (greater) r' n1 where "v \<noteq> val" "\<not> val < v" "erase_value val r n = Inr (r', n1)"
      "rebalance (Node a l r' p v h) n1 = Inr (t', n')"
proof (cases "v = val")
  case eq: True
  show ?thesis
  proof (cases "l = Null \<and> r = Null")
    case True
    with eq assms show ?thesis by (intro leaf) auto
  next
    case nl: False
    show ?thesis
    proof (cases "l = Null \<or> (r \<noteq> Null \<and> cached_height r > cached_height l)")
      case True
      with eq nl assms obtain u r1 r' n1 where
        "swap_leftmost v r = Inr (u, r1)" "erase_value val r1 n = Inr (r', n1)"
        "rebalance (Node a l r' p u h) n1 = Inr (t', n')"
        by (auto split: sum.splits)
      with eq nl True show ?thesis by (intro succ)
    next
      case False
      with eq nl assms obtain u l1 l' n1 where
        "swap_rightmost v l = Inr (u, l1)" "erase_value val l1 n = Inr (l', n1)"
        "rebalance (Node a l' r p u h) n1 = Inr (t', n')"
        by (auto split: sum.splits)
      with eq nl False show ?thesis by (intro pred)
    qed
  qed
next
  case ne: False
  show ?thesis
  proof (cases "val < v")
    case True
    with ne assms obtain l' n1 where "erase_value val l n = Inr (l', n1)"
      "rebalance (Node a l' r p v h) n1 = Inr (t', n')"
      by (auto split: sum.splits)
    with ne True show ?thesis by (intro less)
  next
    case False
    with ne assms obtain r' n1 where "erase_value val r n = Inr (r', n1)"
      "rebalance (Node a l r' p v h) n1 = Inr (t', n')"
      by (auto split: sum.splits)
    with ne False show ?thesis by (intro greater)
  qed
qed

lemma erase_value_inorder:
  "bst t \<Longrightarrow> erase_value val t n = Inr (t', n') \<Longrightarrow>
     set (inorder t') = set (inorder t) - {val} \<and> bst t'"
proof (induction val t n arbitrary: t' n' rule: erase_value.induct)
  case (1 val n)
  then show ?case by (auto simp: bst_def)
next
  case (2 val a l r p v h n)
  from "2.prems"(1) have bl: "bst l" and br: "bst r"
    and lv: "\<forall>x \<in> set (inorder l). x < v" and vr: "\<forall>y \<in> set (inorder r). v < y"
    by (simp_all add: bst_Node)
  from "2.prems"(2) show ?case
  proof (cases rule: erase_value_cases)
    case leaf
    then show ?thesis by (simp add: bst_def)
  next
    case (succ u r1 r' n1)
    from swap_leftmost_inorder [OF succ(4)] obtain rest where
      ir: "inorder r = u # rest" and ir1: "inorder r1 = v # rest" by blast
    from br ir have su: "\<forall>y \<in> set rest. u < y" and sr: "sorted_wrt (<) rest"
      by (simp_all add: bst_def)
    from vr ir have vu: "v < u" and vrest: "\<forall>y \<in> set rest. v < y" by simp_all
    from sr vrest ir1 have br1: "bst r1" by (simp add: bst_def)
    from succ(1) have eq: "node_equal v val" by simp
    from "2.IH"(1) [OF eq succ(2,3,4) refl br1 succ(5)]
    have sr': "set (inorder r') = set (inorder r1) - {val}" and br': "bst r'" by auto
    from sr' ir1 vrest succ(1) have sr'': "set (inorder r') = set rest" by auto
    from rebalance_keeps [OF succ(6)] have io: "inorder t' = inorder l @ u # inorder r'" by simp
    from lv vu have "\<forall>x \<in> set (inorder l). x < u" by (meson less_trans)
    with bl br' su sr'' have "bst t'" by (simp add: bst_inorder [OF io])
    moreover from lv vr succ(1) io sr'' ir
    have "set (inorder t') = set (inorder (Node a l r p v h)) - {val}" by auto
    ultimately show ?thesis by simp
  next
    case (pred u l1 l' n1)
    from swap_rightmost_inorder [OF pred(4)] obtain rest where
      il: "inorder l = rest @ [u]" and il1: "inorder l1 = rest @ [v]" by blast
    from bl il have su: "\<forall>x \<in> set rest. x < u" and sr: "sorted_wrt (<) rest"
      by (simp_all add: bst_def sorted_wrt_append)
    from lv il have uv: "u < v" and restv: "\<forall>x \<in> set rest. x < v" by simp_all
    from sr restv il1 have bl1: "bst l1" by (simp add: bst_def sorted_wrt_append)
    from pred(1) have eq: "node_equal v val" by simp
    from "2.IH"(2) [OF eq pred(2,3,4) refl bl1 pred(5)]
    have sl': "set (inorder l') = set (inorder l1) - {val}" and bl': "bst l'" by auto
    from sl' il1 restv pred(1) have sl'': "set (inorder l') = set rest" by auto
    from rebalance_keeps [OF pred(6)] have io: "inorder t' = inorder l' @ u # inorder r" by simp
    from vr uv have "\<forall>y \<in> set (inorder r). u < y" by (meson less_trans)
    with bl' br su sl'' have "bst t'" by (simp add: bst_inorder [OF io])
    moreover from lv vr pred(1) io sl'' il
    have "set (inorder t') = set (inorder (Node a l r p v h)) - {val}" by auto
    ultimately show ?thesis by simp
  next
    case (less l' n1)
    from less(1) have ne: "\<not> node_equal v val" by simp
    from "2.IH"(3) [OF ne less(2) bl less(3)]
    have sl': "set (inorder l') = set (inorder l) - {val}" and bl': "bst l'" by auto
    from rebalance_keeps [OF less(4)] have io: "inorder t' = inorder l' @ v # inorder r" by simp
    from sl' lv have "\<forall>x \<in> set (inorder l'). x < v" by simp
    with bl' br vr have "bst t'" by (simp add: bst_inorder [OF io])
    moreover from vr less(1,2) io sl'
    have "set (inorder t') = set (inorder (Node a l r p v h)) - {val}" by auto
    ultimately show ?thesis by simp
  next
    case (greater r' n1)
    from greater(1) have ne: "\<not> node_equal v val" by simp
    from greater(1,2) have vv: "v < val" by simp
    from "2.IH"(4) [OF ne greater(2) br greater(3)]
    have sr': "set (inorder r') = set (inorder r) - {val}" and br': "bst r'" by auto
    from rebalance_keeps [OF greater(4)] have io: "inorder t' = inorder l @ v # inorder r'" by simp
    from sr' vr have "\<forall>y \<in> set (inorder r'). v < y" by simp
    with bl br' lv have "bst t'" by (simp add: bst_inorder [OF io])
    moreover from lv vv io sr'
    have "set (inorder t') = set (inorder (Node a l r p v h)) - {val}" by auto
    ultimately show ?thesis by simp
  qed
qed

lemma erase_value_addrs:
  "erase_value val t n = Inr (t', n') \<Longrightarrow> distinct (addrs t) \<Longrightarrow> parents_ok q t \<Longrightarrow>
     distinct (addrs t') \<and> set (addrs t') \<subseteq> set (addrs t) \<and> parents_ok q t'"
proof (induction val t n arbitrary: t' n' q rule: erase_value.induct)
  case (1 val n)
  then show ?case by auto
next
  case (2 val a l r p v h n)
  from "2.prems"(2,3) have dl: "distinct (addrs l)" and dr: "distinct (addrs r)"
    and pl: "parents_ok (Some a) l" and pr: "parents_ok (Some a) r" and pp: "p = q"
    and d: "a \<notin> set (addrs l)" "a \<notin> set (addrs r)" "set (addrs l) \<inter> set (addrs r) = {}"
    by auto
  have left: ?case
    if sub: "distinct (addrs l')" "set (addrs l') \<subseteq> set (addrs l)" "parents_ok (Some a) l'"
      and rb: "rebalance (Node a l' r p u h) n1 = Inr (t', n')"
    for l' u n1
  proof -
    from rebalance_keeps [OF rb] have ad: "addrs t' = addrs l' @ a # addrs r"
      and po: "parents_ok (Some a) l' \<and> parents_ok (Some a) r \<longrightarrow> parents_ok p t'" by auto
    from sub(2) d have "a \<notin> set (addrs l')" "set (addrs l') \<inter> set (addrs r) = {}" by auto
    with sub(1) dr d have "distinct (addrs t')" by (simp add: ad)
    moreover from sub(2) have "set (addrs t') \<subseteq> set (addrs (Node a l r p v h))"
      by (auto simp: ad)
    moreover from po sub(3) pr pp have "parents_ok q t'" by simp
    ultimately show ?thesis by simp
  qed
  have right: ?case
    if sub: "distinct (addrs r')" "set (addrs r') \<subseteq> set (addrs r)" "parents_ok (Some a) r'"
      and rb: "rebalance (Node a l r' p u h) n1 = Inr (t', n')"
    for r' u n1
  proof -
    from rebalance_keeps [OF rb] have ad: "addrs t' = addrs l @ a # addrs r'"
      and po: "parents_ok (Some a) l \<and> parents_ok (Some a) r' \<longrightarrow> parents_ok p t'" by auto
    from sub(2) d have "a \<notin> set (addrs r')" "set (addrs l) \<inter> set (addrs r') = {}" by auto
    with sub(1) dl d have "distinct (addrs t')" by (simp add: ad)
    moreover from sub(2) have "set (addrs t') \<subseteq> set (addrs (Node a l r p v h))"
      by (auto simp: ad)
    moreover from po sub(3) pl pp have "parents_ok q t'" by simp
    ultimately show ?thesis by simp
  qed
  from "2.prems"(1) show ?case
  proof (cases rule: erase_value_cases)
    case leaf
    then show ?thesis by simp
  next
    case (succ u r1 r' n1)
    from swap_leftmost_addrs [OF succ(4), of "Some a"] dr pr
    have d1: "distinct (addrs r1)" and p1: "parents_ok (Some a) r1" and a1: "addrs r1 = addrs r"
      by auto
    from succ(1) have eq: "node_equal v val" by simp
    from "2.IH"(1) [OF eq succ(2,3,4) refl succ(5) d1 p1] a1
    show ?thesis by (intro right [OF _ _ _ succ(6)]) auto
  next
    case (pred u l1 l' n1)
    from swap_rightmost_addrs [OF pred(4), of "Some a"] dl pl
    have d1: "distinct (addrs l1)" and p1: "parents_ok (Some a) l1" and a1: "addrs l1 = addrs l"
      by auto
    from pred(1) have eq: "node_equal v val" by simp
    from "2.IH"(2) [OF eq pred(2,3,4) refl pred(5) d1 p1] a1
    show ?thesis by (intro left [OF _ _ _ pred(6)]) auto
  next
    case (less l' n1)
    from less(1) have ne: "\<not> node_equal v val" by simp
    from "2.IH"(3) [OF ne less(2,3) dl pl]
    show ?thesis by (intro left [OF _ _ _ less(4)]) auto
  next
    case (greater r' n1)
    from greater(1) have ne: "\<not> node_equal v val" by simp
    from "2.IH"(4) [OF ne greater(2,3) dr pr]
    show ?thesis by (intro right [OF _ _ _ greater(4)]) auto
  qed
qed

subsection \<open>The iterator\<close>

lemma find_node_notin: "x \<notin> set (addrs t) \<Longrightarrow> find_node x t = Null"
  by (induction t) auto

lemma find_node_in: "x \<in> set (addrs t) \<Longrightarrow> find_node x t \<noteq> Null"
  by (induction t) (auto split: node.splits)

lemma find_node_left:
  "distinct (addrs (Node a l r p v h)) \<Longrightarrow> x \<in> set (addrs l) \<Longrightarrow>
     find_node x (Node a l r p v h) = find_node x l"
  using find_node_in [of x l] by (auto split: node.splits)

lemma find_node_right:
  assumes "distinct (addrs (Node a l r p v h))" and "x \<in> set (addrs r)"
  shows "find_node x (Node a l r p v h) = find_node x r"
proof -
  from assms have "x \<notin> set (addrs l)" and "x \<noteq> a" by auto
  with find_node_notin [of x l] show ?thesis by simp
qed

lemma leftmost_in: "t \<noteq> Null \<Longrightarrow> \<exists>x \<in> set (addrs t). leftmost t = Some x"
  by (induction t) auto

text \<open>
  Iterating from the leftmost node of a subtree \<open>S\<close> of the tree \<open>T\<close> visits the values of
  \<open>S\<close> in order and goes on where the climb from the root of \<open>S\<close> leads.
\<close>

lemma iterate_subtree:
  assumes "\<forall>x \<in> set (addrs S). find_node x T = find_node x S"
    and "distinct (addrs S)" and "parents_ok q S" and "S = Node a l r p v h"
    and "\<forall>x \<in> set (addrs l) \<union> set (addrs r). Some x \<noteq> rt"
  shows "iterate_loop T \<lparr>it_node = None, it_root = rt\<rparr> \<lparr>it_node = leftmost S, it_root = rt\<rparr> acc =
     (case climb_to_parent T rt a of
        None \<Rightarrow> None
      | Some (Inl e) \<Rightarrow> Some (Inl e)
      | Some (Inr m) \<Rightarrow>
          iterate_loop T \<lparr>it_node = None, it_root = rt\<rparr> \<lparr>it_node = m, it_root = rt\<rparr>
            (acc @ inorder S))"
  using assms
proof (induction S arbitrary: q a l r p v h acc)
  case Null
  then show ?case by simp
next
  case (Node a' l' r' p' v' h')
  from Node.prems(4) have eqs: "a' = a" "l' = l" "r' = r" "p' = p" "v' = v" "h' = h" by auto
  note ag = Node.prems(1) [unfolded eqs]
  note d = Node.prems(2) [unfolded eqs]
  note po = Node.prems(3) [unfolded eqs]
  note nr = Node.prems(5)
  let ?S = "Node a l r p v h"
  let ?stop = "\<lparr>it_node = None, it_root = rt\<rparr>"
  have fa: "find_node a T = ?S" using ag by simp
  have agl: "\<forall>x \<in> set (addrs l). find_node x T = find_node x l"
    using ag find_node_left [OF d] by simp
  have agr: "\<forall>x \<in> set (addrs r). find_node x T = find_node x r"
    using ag find_node_right [OF d] by simp
  from d have dl: "distinct (addrs l)" and dr: "distinct (addrs r)" by auto
  from po have pl: "parents_ok (Some a) l" and pr: "parents_ok (Some a) r" by auto
  \<comment> \<open>the step at the root of the subtree\<close>
  have at_a: "iterate_loop T ?stop \<lparr>it_node = Some a, it_root = rt\<rparr> acc' =
     (case climb_to_parent T rt a of
        None \<Rightarrow> None
      | Some (Inl e) \<Rightarrow> Some (Inl e)
      | Some (Inr m) \<Rightarrow>
          iterate_loop T ?stop \<lparr>it_node = m, it_root = rt\<rparr> (acc' @ v # inorder r))" for acc'
  proof (cases r)
    case Null
    then show ?thesis
      by (subst iterate_loop.simps)
        (simp add: fa SetIterator_incr_def split: option.splits sum.splits)
  next
    case (Node b rl rr rp rv rh)
    with pr have rp: "rp = Some a" by simp
    from Node have bin: "b \<in> set (addrs r)" by simp
    with nr have bnr: "Some b \<noteq> rt" by auto
    from bin agr Node have fb: "find_node b T = Node b rl rr rp rv rh" by simp
    have "climb T rt b = climb T rt a"
      by (subst climb.simps) (simp add: bnr fb rp fa Node)
    then have cp: "climb_to_parent T rt b = climb_to_parent T rt a"
      by (simp add: climb_to_parent_def)
    from nr Node have nr': "\<forall>x \<in> set (addrs rl) \<union> set (addrs rr). Some x \<noteq> rt" by auto
    have "iterate_loop T ?stop \<lparr>it_node = Some a, it_root = rt\<rparr> acc' =
        iterate_loop T ?stop \<lparr>it_node = leftmost r, it_root = rt\<rparr> (acc' @ [v])"
      by (subst iterate_loop.simps) (simp add: fa SetIterator_incr_def Node)
    also have "\<dots> = (case climb_to_parent T rt b of
        None \<Rightarrow> None
      | Some (Inl e) \<Rightarrow> Some (Inl e)
      | Some (Inr m) \<Rightarrow>
          iterate_loop T ?stop \<lparr>it_node = m, it_root = rt\<rparr> ((acc' @ [v]) @ inorder r))"
      using Node.IH(2) [unfolded eqs, OF agr dr pr Node nr'] by simp
    finally show ?thesis by (simp add: cp cong: option.case_cong sum.case_cong)
  qed
  show ?case
  proof (cases l)
    case Null
    with at_a [of acc] show ?thesis by (simp add: eqs cong: option.case_cong sum.case_cong)
  next
    case (Node b ll lr lp lv lh)
    with pl have lp: "lp = Some a" by simp
    from Node have bin: "b \<in> set (addrs l)" by simp
    with nr have bnr: "Some b \<noteq> rt" by auto
    from bin agl Node have fb: "find_node b T = Node b ll lr lp lv lh" by simp
    from bin d have "node_addr r \<noteq> Some b" by (cases r) auto
    then have "climb T rt b = Some (Inr b)"
      by (subst climb.simps) (simp add: bnr fb lp fa)
    then have cp: "climb_to_parent T rt b = Some (Inr (Some a))"
      by (simp add: climb_to_parent_def fb lp)
    from nr Node have nr': "\<forall>x \<in> set (addrs ll) \<union> set (addrs lr). Some x \<noteq> rt" by auto
    have "iterate_loop T ?stop \<lparr>it_node = leftmost ?S, it_root = rt\<rparr> acc =
        iterate_loop T ?stop \<lparr>it_node = leftmost l, it_root = rt\<rparr> acc"
      using Node by simp
    also have "\<dots> = iterate_loop T ?stop \<lparr>it_node = Some a, it_root = rt\<rparr> (acc @ inorder l)"
      using Node.IH(1) [unfolded eqs, OF agl dl pl Node nr', where acc = acc] by (simp add: cp)
    finally show ?thesis using at_a [of "acc @ inorder l"]
      by (simp add: eqs cong: option.case_cong sum.case_cong)
  qed
qed

lemma iterate_tree:
  assumes "distinct (addrs t)" and "parents_ok None t"
  shows "iterate_loop t \<lparr>it_node = None, it_root = node_addr t\<rparr>
           \<lparr>it_node = leftmost t, it_root = node_addr t\<rparr> [] = Some (Inr (inorder t))"
proof (cases t)
  case Null
  then show ?thesis by (subst iterate_loop.simps) simp
next
  case (Node a l r p v h)
  with assms have p: "p = None" and nr: "\<forall>x \<in> set (addrs l) \<union> set (addrs r). Some x \<noteq> node_addr t"
    by auto
  have "climb t (node_addr t) a = Some (Inr a)"
    by (subst climb.simps) (simp add: Node)
  then have cp: "climb_to_parent t (node_addr t) a = Some (Inr None)"
    by (simp add: climb_to_parent_def Node p)
  have "iterate_loop t \<lparr>it_node = None, it_root = node_addr t\<rparr>
           \<lparr>it_node = leftmost t, it_root = node_addr t\<rparr> [] =
        iterate_loop t \<lparr>it_node = None, it_root = node_addr t\<rparr>
           \<lparr>it_node = None, it_root = node_addr t\<rparr> (inorder t)"
    using iterate_subtree [OF _ assms Node nr, where acc = "[]"] by (simp add: cp)
  also have "\<dots> = Some (Inr (inorder t))"
    by (subst iterate_loop.simps) simp
  finally show ?thesis .
qed

subsection \<open>The public operations\<close>

lemma Set_new_inv: "Set_inv Set_new"
  by (simp add: Set_inv_def Set_new_def bst_def)

lemma update_first_node_eq:
  "update_first_node s = s\<lparr>first_node := leftmost (root s)\<rparr>"
  by (simp add: update_first_node_def)

lemma Set_insert_inv:
  assumes "Set_inv s"
  shows "\<exists>s'. Set_insert x s = Inr s' \<and> Set_inv s' \<and>
           set (inorder (root s')) = insert x (set (inorder (root s)))"
proof -
  from assms have a: "avl (root s)" and b: "bst (root s)" and d: "distinct (addrs (root s))"
    and p: "parents_ok None (root s)" and f: "\<forall>y \<in> set (addrs (root s)). y < next_addr s"
    by (simp_all add: Set_inv_def list_all_iff)
  from insert_value_avl [OF a, of x None "next_addr s" "num_values s"] obtain t fresh n where
    i: "insert_value x None (root s) (next_addr s, num_values s) = Inr (t, fresh, n)"
    and a': "avl t" by (metis prod.exhaust)
  from insert_value_inorder [OF b i] have c: "set (inorder t) = insert x (set (inorder (root s)))"
    and b': "bst t" by auto
  from insert_value_addrs [OF i f d p] have "distinct (addrs t)" "parents_ok None t"
    "\<forall>y \<in> set (addrs t). y < fresh" by auto
  with a' b' c i show ?thesis
    by (simp add: Set_insert_def update_first_node_eq Set_inv_def list_all_iff)
qed

lemma Set_erase_inv:
  assumes "Set_inv s"
  shows "\<exists>s'. Set_erase x s = Inr s' \<and> Set_inv s' \<and>
           set (inorder (root s')) = set (inorder (root s)) - {x}"
proof -
  from assms have a: "avl (root s)" and b: "bst (root s)" and d: "distinct (addrs (root s))"
    and p: "parents_ok None (root s)" and f: "\<forall>y \<in> set (addrs (root s)). y < next_addr s"
    by (simp_all add: Set_inv_def list_all_iff)
  from erase_value_avl [OF a, of x "num_values s"] obtain t n where
    e: "erase_value x (root s) (num_values s) = Inr (t, n)" and a': "avl t" by blast
  from erase_value_inorder [OF b e] have c: "set (inorder t) = set (inorder (root s)) - {x}"
    and b': "bst t" by auto
  from erase_value_addrs [OF e d p] have "distinct (addrs t)" "parents_ok None t"
    "set (addrs t) \<subseteq> set (addrs (root s))" by auto
  with a' b' c e f show ?thesis
    by (auto simp: Set_erase_def update_first_node_eq Set_inv_def list_all_iff)
qed

lemma Set_run_inv:
  "Set_inv s \<Longrightarrow>
     \<exists>s'. Set_run ops s = Inr s' \<and> Set_inv s' \<and>
       set (inorder (root s')) = foldl (\<lambda>S x. stored_step x S) (set (inorder (root s))) ops"
proof (induction ops arbitrary: s)
  case Nil
  then show ?case by simp
next
  case (Cons x xs)
  have "\<exists>s1. Set_step x s = Inr s1 \<and> Set_inv s1 \<and>
          set (inorder (root s1)) = stored_step x (set (inorder (root s)))"
  proof (cases x)
    case (SetInsert y)
    with Set_insert_inv [OF Cons.prems, of y] show ?thesis by simp
  next
    case (SetErase y)
    with Set_erase_inv [OF Cons.prems, of y] show ?thesis by simp
  qed
  then obtain s1 where s1: "Set_step x s = Inr s1" "Set_inv s1"
    "set (inorder (root s1)) = stored_step x (set (inorder (root s)))" by blast
  from Cons.IH [OF s1(2)] s1(1,3) show ?case by simp
qed

lemma Set_iterate_inv:
  assumes "Set_inv s"
  shows "Set_iterate s = Some (Inr (inorder (root s)))"
proof -
  from assms have d: "distinct (addrs (root s))" and p: "parents_ok None (root s)"
    and f: "first_node s = leftmost (root s)"
    by (simp_all add: Set_inv_def)
  from iterate_tree [OF d p] f show ?thesis
    by (simp add: Set_iterate_def Set_begin_def Set_end_def)
qed

text \<open>
  C1. Every run of \<^verbatim>\<open>insert\<close> and \<^verbatim>\<open>erase\<close> calls from the empty set returns, and iterating
  the set it leaves from \<^verbatim>\<open>begin()\<close> to \<^verbatim>\<open>end()\<close> with \<^verbatim>\<open>++\<close> returns too and visits exactly
  the stored values, each once, in strictly ascending order.
\<close>

theorem iteration_ascending:
  "\<exists>s xs. Set_run ops Set_new = Inr s \<and> Set_iterate s = Some (Inr xs) \<and>
     sorted_wrt (<) xs \<and> distinct xs \<and> set xs = stored_values ops"
proof -
  from Set_run_inv [OF Set_new_inv, of ops] obtain s where
    s: "Set_run ops Set_new = Inr s" "Set_inv s"
    "set (inorder (root s)) = stored_values ops"
    by (auto simp: stored_values_def Set_new_def)
  from s(2) have "sorted_wrt (<) (inorder (root s))" by (simp add: Set_inv_def bst_def)
  moreover from this have "distinct (inorder (root s))" by (simp add: strict_sorted_iff)
  ultimately show ?thesis using s Set_iterate_inv [OF s(2)] by blast
qed

text \<open>
  C2. Every run of \<^verbatim>\<open>insert\<close> and \<^verbatim>\<open>erase\<close> calls from the empty set returns, and in the tree
  it leaves every node has children whose heights differ by at most one and a \<^verbatim>\<open>height\<close>
  field equal to one plus the larger of them. A prefix of a run is a run, so this holds
  after each call.
\<close>

theorem balanced_after_every_operation:
  "\<exists>s. Set_run ops Set_new = Inr s \<and> avl (root s)"
  using Set_run_inv [OF Set_new_inv, of ops] by (auto simp: Set_inv_def)

subsection \<open>The size\<close>

lemma rebalance_state: "rebalance t st = Inr (t', st') \<Longrightarrow> st' = st"
  by (auto simp: rebalance_def split: node.splits sum.splits)

lemma insert_value_num:
  "bst t \<Longrightarrow> insert_value val par t (fresh, n) = Inr (t', fresh', n') \<Longrightarrow>
     n' = (if val \<in> set (inorder t) then n else n + 1)"
proof (induction t arbitrary: par fresh n t' fresh' n')
  case Null
  then show ?case by auto
next
  case (Node a l r p v h)
  from Node.prems(1) have bl: "bst l" and br: "bst r"
    and lv: "\<forall>x \<in> set (inorder l). x < v" and vr: "\<forall>y \<in> set (inorder r). v < y"
    by (simp_all add: bst_Node)
  show ?case
  proof (cases "v = val")
    case True
    with Node.prems show ?thesis by auto
  next
    case ne: False
    show ?thesis
    proof (cases "val < v")
      case True
      with ne Node.prems(2) obtain l' st1 where
        i: "insert_value val (Some a) l (fresh, n) = Inr (l', st1)"
        and r: "rebalance (Node a l' r p v h) st1 = Inr (t', fresh', n')"
        by (auto split: sum.splits)
      from rebalance_state [OF r] have st1: "st1 = (fresh', n')" by simp
      from Node.IH(1) [OF bl i [unfolded st1]]
      have "n' = (if val \<in> set (inorder l) then n else n + 1)" .
      moreover from True vr ne have "val \<in> set (inorder (Node a l r p v h)) \<longleftrightarrow> val \<in> set (inorder l)"
        by (auto dest: bspec)
      ultimately show ?thesis by simp
    next
      case False
      with ne Node.prems(2) obtain r' st1 where
        i: "insert_value val (Some a) r (fresh, n) = Inr (r', st1)"
        and r: "rebalance (Node a l r' p v h) st1 = Inr (t', fresh', n')"
        by (auto split: sum.splits)
      from rebalance_state [OF r] have st1: "st1 = (fresh', n')" by simp
      from Node.IH(2) [OF br i [unfolded st1]]
      have "n' = (if val \<in> set (inorder r) then n else n + 1)" .
      moreover from False lv ne have "val \<in> set (inorder (Node a l r p v h)) \<longleftrightarrow> val \<in> set (inorder r)"
        by (auto dest: bspec)
      ultimately show ?thesis by simp
    qed
  qed
qed

lemma erase_value_num:
  "bst t \<Longrightarrow> erase_value val t n = Inr (t', n') \<Longrightarrow>
     n' = (if val \<in> set (inorder t) then n - 1 else n)"
proof (induction val t n arbitrary: t' n' rule: erase_value.induct)
  case (1 val n)
  then show ?case by auto
next
  case (2 val a l r p v h n)
  from "2.prems"(1) have bl: "bst l" and br: "bst r"
    and lv: "\<forall>x \<in> set (inorder l). x < v" and vr: "\<forall>y \<in> set (inorder r). v < y"
    by (simp_all add: bst_Node)
  from "2.prems"(2) show ?case
  proof (cases rule: erase_value_cases)
    case leaf
    with "2.prems"(2) show ?thesis by simp
  next
    case (succ u r1 r' n1)
    from swap_leftmost_inorder [OF succ(4)] obtain rest where
      ir: "inorder r = u # rest" and ir1: "inorder r1 = v # rest" by blast
    from br ir have sr: "sorted_wrt (<) rest" by (simp add: bst_def)
    from vr ir have vrest: "\<forall>y \<in> set rest. v < y" by simp
    from sr vrest ir1 have br1: "bst r1" by (simp add: bst_def)
    from succ(1) have eq: "node_equal v val" by simp
    from rebalance_state [OF succ(6)] have "n1 = n'" by simp
    with "2.IH"(1) [OF eq succ(2,3,4) refl br1 succ(5)] ir1 succ(1)
    show ?thesis by simp
  next
    case (pred u l1 l' n1)
    from swap_rightmost_inorder [OF pred(4)] obtain rest where
      il: "inorder l = rest @ [u]" and il1: "inorder l1 = rest @ [v]" by blast
    from bl il have sr: "sorted_wrt (<) rest" by (simp add: bst_def sorted_wrt_append)
    from lv il have restv: "\<forall>x \<in> set rest. x < v" by simp
    from sr restv il1 have bl1: "bst l1" by (simp add: bst_def sorted_wrt_append)
    from pred(1) have eq: "node_equal v val" by simp
    from rebalance_state [OF pred(6)] have "n1 = n'" by simp
    with "2.IH"(2) [OF eq pred(2,3,4) refl bl1 pred(5)] il1 pred(1)
    show ?thesis by simp
  next
    case (less l' n1)
    from less(1) have ne: "\<not> node_equal v val" by simp
    from rebalance_state [OF less(4)] have "n1 = n'" by simp
    moreover from less(1,2) vr have "val \<in> set (inorder (Node a l r p v h)) \<longleftrightarrow> val \<in> set (inorder l)"
      by (auto dest: bspec)
    ultimately show ?thesis using "2.IH"(3) [OF ne less(2) bl less(3)] by simp
  next
    case (greater r' n1)
    from greater(1) have ne: "\<not> node_equal v val" by simp
    from rebalance_state [OF greater(4)] have "n1 = n'" by simp
    moreover from greater(1,2) lv have "val \<in> set (inorder (Node a l r p v h)) \<longleftrightarrow> val \<in> set (inorder r)"
      by (auto dest: bspec)
    ultimately show ?thesis using "2.IH"(4) [OF ne greater(2) br greater(3)] by simp
  qed
qed

lemma Set_step_size:
  assumes "Set_inv s" and "num_values s = card (set (inorder (root s)))"
    and "Set_step x s = Inr s'"
  shows "num_values s' = card (set (inorder (root s')))"
proof -
  from assms(1) have b: "bst (root s)" by (simp add: Set_inv_def)
  show ?thesis
  proof (cases x)
    case (SetInsert y)
    with assms(3) obtain t fresh n where
      i: "insert_value y None (root s) (next_addr s, num_values s) = Inr (t, fresh, n)"
      and s': "root s' = t" "num_values s' = n"
      by (auto simp: Set_insert_def update_first_node_eq split: sum.splits)
    from insert_value_inorder [OF b i] insert_value_num [OF b i] assms(2) s'
    show ?thesis by (auto simp: card_insert_if)
  next
    case (SetErase y)
    with assms(3) obtain t n where
      e: "erase_value y (root s) (num_values s) = Inr (t, n)"
      and s': "root s' = t" "num_values s' = n"
      by (auto simp: Set_erase_def update_first_node_eq split: sum.splits)
    from erase_value_inorder [OF b e] erase_value_num [OF b e] assms(2) s'
    show ?thesis by auto
  qed
qed

lemma Set_run_size:
  "Set_inv s \<Longrightarrow> num_values s = card (set (inorder (root s))) \<Longrightarrow> Set_run ops s = Inr s' \<Longrightarrow>
     num_values s' = card (set (inorder (root s')))"
proof (induction ops arbitrary: s)
  case Nil
  then show ?case by simp
next
  case (Cons x xs)
  from Cons.prems(3) obtain s1 where s1: "Set_step x s = Inr s1" and r: "Set_run xs s1 = Inr s'"
    by (auto split: sum.splits)
  have "Set_inv s1"
  proof (cases x)
    case (SetInsert y)
    with Set_insert_inv [OF Cons.prems(1), of y] s1 show ?thesis by auto
  next
    case (SetErase y)
    with Set_erase_inv [OF Cons.prems(1), of y] s1 show ?thesis by auto
  qed
  from Cons.IH [OF this Set_step_size [OF Cons.prems(1,2) s1] r] show ?case .
qed

lemma size_counts_stored_values:
  "\<exists>s. Set_run ops Set_new = Inr s \<and> Set_size s = card (stored_values ops)"
proof -
  from Set_run_inv [OF Set_new_inv, of ops] obtain s where
    s: "Set_run ops Set_new = Inr s" "set (inorder (root s)) = stored_values ops"
    by (auto simp: stored_values_def Set_new_def)
  have "num_values (Set_new :: 'a Set_rec) = card (set (inorder (root (Set_new :: 'a Set_rec))))"
    by (simp add: Set_new_def)
  from Set_run_size [OF Set_new_inv this s(1)] s show ?thesis
    by (auto simp: Set_size_def)
qed

end
